theory Spec2Isabelle
  imports Main
begin

section \<open>Tokens, errors and the object model\<close>

text \<open>
  The token types of the lexer that \<open>documenters.py\<close> compares with \<open>is\<close>. Every other
  token type (a subtype such as \<open>Token.Name.Builtin\<close>) is \<open>Token_Other\<close> with its path:
  it is identical to none of the six.
\<close>

datatype tokentype =
  Token_Text | Token_Keyword | Token_Name | Token_Punctuation | Token_Operator
  | Token_Comment | Token_Other string

type_synonym token = "tokentype \<times> string"

text \<open>The exceptions the code raises, by their Python class, with the message.\<close>

datatype error =
  IndexError
  | TypeError string
  | Exception string
  | KeyError string
  | AttributeError string

text \<open>
  A value of \<open>self.attrs\<close>: the list an attribute is registered with (\<open>[]\<close>, grown by the
  cell array branch), or the text \<open>true\<close>/\<open>false\<close> of a logical value.
\<close>

datatype attr_value = AttrList "string list" | AttrStr string

datatype pytype = Py_bool | Py_list

datatype MatMember = MatProperty string | MatMethod string | MatStaticMethod string

record MatObject =
  name :: string

record MatFunction = MatObject +
  fn_path :: string
  fn_tokens :: "token list"

record MatClass = MatObject +
  path :: string
  tokens :: "token list"
  attrs :: "string \<rightharpoonup> attr_value"
  bases :: "string list"
  docstring :: string
  properties :: "string \<rightharpoonup> MatMember"
  methods :: "string \<rightharpoonup> MatMember"

datatype matobject = Function MatFunction | Class MatClass

text \<open>The classes of the module and their method resolution order, for \<open>super\<close>.\<close>

datatype pyclass = Cls_object | Cls_MatObject | Cls_MatModule | Cls_MatMixin | Cls_MatFunction | Cls_MatClass

fun mro :: "pyclass \<Rightarrow> pyclass list" where
  "mro Cls_object = [Cls_object]"
| "mro Cls_MatObject = [Cls_MatObject, Cls_object]"
| "mro Cls_MatModule = [Cls_MatModule, Cls_MatObject, Cls_object]"
| "mro Cls_MatMixin = [Cls_MatMixin, Cls_object]"
| "mro Cls_MatFunction = [Cls_MatFunction, Cls_MatObject, Cls_object]"
| "mro Cls_MatClass = [Cls_MatClass, Cls_MatMixin, Cls_MatObject, Cls_object]"

text \<open>
  \<open>super(typ, obj)\<close> for an object of class \<open>obj_cls\<close>: Python raises TypeError unless
  the object is an instance of \<open>typ\<close>.
\<close>

definition super_check :: "pyclass \<Rightarrow> pyclass \<Rightarrow> error + unit" where
  "super_check typ obj_cls =
     (if typ \<in> set (mro obj_cls) then Inr ()
      else Inl (TypeError ''super(type, obj): obj must be an instance or subtype of type''))"

text \<open>\<open>MatClass.cls_attr_types\<close>, the recognised class attributes.\<close>

definition cls_attr_types :: "(string \<times> pytype) list" where
  "cls_attr_types =
     [(''Abstract'', Py_bool), (''AllowedSubclasses'', Py_list),
      (''ConstructOnLoad'', Py_bool), (''HandleCompatible'', Py_bool),
      (''Hidden'', Py_bool), (''InferiorClasses'', Py_list), (''Sealed'', Py_bool)]"

abbreviation tk_blank :: token where "tk_blank \<equiv> (Token_Text, '' '')"

abbreviation tk_newline :: token where "tk_newline \<equiv> (Token_Text, [CHR 0x0A])"

abbreviation tk_tab :: token where "tk_tab \<equiv> (Token_Text, [CHR 0x09])"

abbreviation tk_classdef :: token where "tk_classdef \<equiv> (Token_Keyword, ''classdef'')"

abbreviation tk_function :: token where "tk_function \<equiv> (Token_Keyword, ''function'')"

abbreviation tk_lparen :: token where "tk_lparen \<equiv> (Token_Punctuation, ''('')"

abbreviation tk_rparen :: token where "tk_rparen \<equiv> (Token_Punctuation, '')'')"

abbreviation tk_lbrace :: token where "tk_lbrace \<equiv> (Token_Punctuation, ''{'')"

abbreviation tk_rbrace :: token where "tk_rbrace \<equiv> (Token_Punctuation, ''}'')"

abbreviation tk_comma :: token where "tk_comma \<equiv> (Token_Punctuation, '','')"

abbreviation tk_equals :: token where "tk_equals \<equiv> (Token_Punctuation, ''='')"

abbreviation tk_less :: token where "tk_less \<equiv> (Token_Operator, ''<'')"

abbreviation tk_amp :: token where "tk_amp \<equiv> (Token_Operator, ''&'')"

section \<open>MatMixin: probing the token list\<close>

text \<open>\<open>self.tokens[idx]\<close>: the index is never negative; past the end Python raises.\<close>

definition getitem :: "MatClass \<Rightarrow> nat \<Rightarrow> error + token" where
  "getitem self idx =
     (if idx < length (tokens self) then Inr (tokens self ! idx) else Inl IndexError)"

definition tk_eq :: "MatClass \<Rightarrow> nat \<Rightarrow> token \<Rightarrow> error + bool" where
  "tk_eq self idx token =
     (case getitem self idx of
        Inl e \<Rightarrow> Inl e
      | Inr t \<Rightarrow> Inr (fst t = fst token \<and> snd t = snd token))"

definition tk_ne :: "MatClass \<Rightarrow> nat \<Rightarrow> token \<Rightarrow> error + bool" where
  "tk_ne self idx token =
     (case getitem self idx of
        Inl e \<Rightarrow> Inl e
      | Inr t \<Rightarrow> Inr (fst t \<noteq> fst token \<or> snd t \<noteq> snd token))"

definition eotk :: "MatClass \<Rightarrow> nat \<Rightarrow> bool" where
  "eotk self idx = (idx \<ge> length (tokens self))"

lemma getitem_Inr_less: "getitem self idx = Inr t \<Longrightarrow> idx < length (tokens self)"
  by (simp add: getitem_def split: if_splits)

lemma tk_eq_Inr_less: "tk_eq self idx token = Inr c \<Longrightarrow> idx < length (tokens self)"
  by (auto simp: tk_eq_def dest: getitem_Inr_less split: sum.splits)

lemma tk_ne_Inr_less: "tk_ne self idx token = Inr c \<Longrightarrow> idx < length (tokens self)"
  by (auto simp: tk_ne_def dest: getitem_Inr_less split: sum.splits)

text \<open>The loop of \<open>_blanks\<close>; \<open>blanks\<close> returns \<open>idx - idx0\<close>.\<close>

function blanks_loop :: "MatClass \<Rightarrow> nat \<Rightarrow> error + nat" where
  "blanks_loop self idx =
     (case tk_eq self idx tk_blank of
        Inl e \<Rightarrow> Inl e
      | Inr c \<Rightarrow> if c then blanks_loop self (idx + 1) else Inr idx)"
  by pat_completeness auto

termination
  by (relation "measure (\<lambda>(self, idx). length (tokens self) - idx)")
     (auto dest: tk_eq_Inr_less)

definition blanks :: "MatClass \<Rightarrow> nat \<Rightarrow> error + nat" where
  "blanks self idx =
     (case blanks_loop self idx of Inl e \<Rightarrow> Inl e | Inr idx' \<Rightarrow> Inr (idx' - idx))"

text \<open>The loop of \<open>_whitespace\<close>: blanks, newlines and tabs.\<close>

function whitespace_loop :: "MatClass \<Rightarrow> nat \<Rightarrow> error + nat" where
  "whitespace_loop self idx =
     (case getitem self idx of
        Inl e \<Rightarrow> Inl e
      | Inr t \<Rightarrow>
          if fst t = Token_Text \<and> snd t \<in> set ['' '', [CHR 0x0A], [CHR 0x09]]
          then whitespace_loop self (idx + 1) else Inr idx)"
  by pat_completeness auto

termination
  by (relation "measure (\<lambda>(self, idx). length (tokens self) - idx)")
     (auto dest: getitem_Inr_less)

definition whitespace :: "MatClass \<Rightarrow> nat \<Rightarrow> error + nat" where
  "whitespace self idx =
     (case whitespace_loop self idx of Inl e \<Rightarrow> Inl e | Inr idx' \<Rightarrow> Inr (idx' - idx))"

text \<open>The loop of \<open>_indent\<close>: blanks and tabs.\<close>

function indent_loop :: "MatClass \<Rightarrow> nat \<Rightarrow> error + nat" where
  "indent_loop self idx =
     (case getitem self idx of
        Inl e \<Rightarrow> Inl e
      | Inr t \<Rightarrow>
          if fst t = Token_Text \<and> snd t \<in> set ['' '', [CHR 0x09]]
          then indent_loop self (idx + 1) else Inr idx)"
  by pat_completeness auto

termination
  by (relation "measure (\<lambda>(self, idx). length (tokens self) - idx)")
     (auto dest: getitem_Inr_less)

definition indent :: "MatClass \<Rightarrow> nat \<Rightarrow> error + nat" where
  "indent self idx =
     (case indent_loop self idx of Inl e \<Rightarrow> Inl e | Inr idx' \<Rightarrow> Inr (idx' - idx))"

declare blanks_loop.simps [simp del] whitespace_loop.simps [simp del] indent_loop.simps [simp del]

section \<open>MatClass: the class header parser\<close>

subsection \<open>Class attributes (lines 309 to 355)\<close>

text \<open>
  The inner loop of a cell array (lines 343 to 346) concatenates token texts up to a
  blank or a comma.
\<close>

function cell_word_loop :: "MatClass \<Rightarrow> nat \<Rightarrow> string \<Rightarrow> error + nat \<times> string" where
  "cell_word_loop self idx attr_val =
     (case tk_ne self idx tk_blank of
        Inl e \<Rightarrow> Inl e
      | Inr c1 \<Rightarrow>
          if \<not> c1 then Inr (idx, attr_val)
          else (case tk_ne self idx tk_comma of
                  Inl e \<Rightarrow> Inl e
                | Inr c2 \<Rightarrow>
                    if \<not> c2 then Inr (idx, attr_val)
                    else (case getitem self idx of
                            Inl e \<Rightarrow> Inl e
                          | Inr t \<Rightarrow> cell_word_loop self (idx + 1) (attr_val @ snd t))))"
  by pat_completeness auto

termination
  by (relation "measure (\<lambda>(self, idx, attr_val). length (tokens self) - idx)")
     (auto dest: getitem_Inr_less)

declare cell_word_loop.simps [simp del]

lemma cell_word_loop_ge: "cell_word_loop self idx w = Inr (i, w') \<Longrightarrow> idx \<le> i"
  apply (induction self idx w rule: cell_word_loop.induct)
  apply (subst (asm) (2) cell_word_loop.simps)
  apply (fastforce split: sum.splits if_splits)
  done

text \<open>
  One round of the cell array loop (lines 340 to 349): skip blanks, read a word, step
  over the token that ended it, append the word to the list of the attribute.
\<close>

definition cell_body :: "MatClass \<Rightarrow> nat \<Rightarrow> string \<Rightarrow> (error + nat) \<times> MatClass" where
  "cell_body self idx cls_attr =
     (case blanks self idx of
        Inl e \<Rightarrow> (Inl e, self)
      | Inr b \<Rightarrow>
          (case cell_word_loop self (idx + b) [] of
             Inl e \<Rightarrow> (Inl e, self)
           | Inr (idx1, attr_val) \<Rightarrow>
               if attr_val \<noteq> [] then
                 (case attrs self cls_attr of
                    None \<Rightarrow> (Inl (KeyError cls_attr), self)
                  | Some (AttrStr s) \<Rightarrow>
                      (Inl (AttributeError ([CHR 0x27] @ ''str'' @ [CHR 0x27] @ '' object has no attribute '' @ [CHR 0x27] @ ''append'' @ [CHR 0x27])), self)
                  | Some (AttrList l) \<Rightarrow>
                      (Inr (idx1 + 1),
                       self\<lparr>attrs := (attrs self)(cls_attr \<mapsto> AttrList (l @ [attr_val]))\<rparr>))
               else (Inr (idx1 + 1), self)))"

lemma cell_body_progress:
  "cell_body self idx cls_attr = (Inr i, s) \<Longrightarrow> idx < i \<and> tokens s = tokens self"
  by (auto simp: cell_body_def split: sum.splits prod.splits if_splits option.splits attr_value.splits
      dest!: cell_word_loop_ge)

function cell_loop :: "MatClass \<Rightarrow> nat \<Rightarrow> string \<Rightarrow> (error + nat) \<times> MatClass" where
  "cell_loop self idx cls_attr =
     (case tk_ne self idx tk_rbrace of
        Inl e \<Rightarrow> (Inl e, self)
      | Inr c \<Rightarrow>
          if c then
            (case cell_body self idx cls_attr of
               (Inl e, s) \<Rightarrow> (Inl e, s)
             | (Inr idx', s) \<Rightarrow> cell_loop s idx' cls_attr)
          else (Inr idx, self))"
  by pat_completeness auto

termination
proof (relation "measure (\<lambda>(self, idx, cls_attr). length (tokens self) - idx)", goal_cases)
  case 1
  show ?case by simp
next
  case (2 self idx cls_attr c r s i)
  from 2 have "idx < i" "tokens s = tokens self"
    using cell_body_progress [of self idx cls_attr i s] by simp_all
  moreover from 2 have "idx < length (tokens self)" by (auto dest: tk_ne_Inr_less)
  ultimately show ?case by simp
qed

declare cell_loop.simps [simp del]

text \<open>
  The value of an attribute, after the equals sign (lines 329 to 354): a logical value,
  or a cell array, or neither; then blanks and an optional comma.
\<close>

definition attr_value :: "MatClass \<Rightarrow> nat \<Rightarrow> string \<Rightarrow> (error + nat) \<times> MatClass" where
  "attr_value self idx cls_attr =
     (case blanks self idx of
        Inl e \<Rightarrow> (Inl e, self)
      | Inr b \<Rightarrow>
          (case getitem self (idx + b) of
             Inl e \<Rightarrow> (Inl e, self)
           | Inr (k, attr_val) \<Rightarrow>
               (case (if k = Token_Name \<and> attr_val \<in> set [''true'', ''false'']
                      then (Inr (idx + b + 1),
                            self\<lparr>attrs := (attrs self)(cls_attr \<mapsto> AttrStr attr_val)\<rparr>)
                      else (case tk_eq self (idx + b) tk_lbrace of
                              Inl e \<Rightarrow> (Inl e, self)
                            | Inr c \<Rightarrow>
                                if c then
                                  (case cell_loop self (idx + b + 1) cls_attr of
                                     (Inl e, s) \<Rightarrow> (Inl e, s)
                                   | (Inr i, s) \<Rightarrow> (Inr (i + 1), s))
                                else (Inr (idx + b), self))) of
                  (Inl e, s) \<Rightarrow> (Inl e, s)
                | (Inr idx1, s) \<Rightarrow>
                    (case blanks s idx1 of
                       Inl e \<Rightarrow> (Inl e, s)
                     | Inr b1 \<Rightarrow>
                         (case tk_eq s (idx1 + b1) tk_comma of
                            Inl e \<Rightarrow> (Inl e, s)
                          | Inr c \<Rightarrow> (Inr (if c then idx1 + b1 + 1 else idx1 + b1), s))))))"

text \<open>
  One round of the attribute loop (lines 313 to 354): the name of the attribute, which
  must be a Name token in \<open>cls_attr_types\<close>, registered with an empty list; then a comma
  (\<open>continue\<close>), or an equals sign and a value, or neither.
\<close>

definition attr_body :: "MatClass \<Rightarrow> nat \<Rightarrow> (error + nat) \<times> MatClass" where
  "attr_body self idx =
     (case blanks self idx of
        Inl e \<Rightarrow> (Inl e, self)
      | Inr b \<Rightarrow>
          (case getitem self (idx + b) of
             Inl e \<Rightarrow> (Inl e, self)
           | Inr (k, cls_attr) \<Rightarrow>
               if k = Token_Name \<and> cls_attr \<in> set (map fst cls_attr_types) then
                 (let self1 = self\<lparr>attrs := (attrs self)(cls_attr \<mapsto> AttrList [])\<rparr>;
                      idx1 = idx + b + 1
                  in (case blanks self1 idx1 of
                        Inl e \<Rightarrow> (Inl e, self1)
                      | Inr b1 \<Rightarrow>
                          (case tk_eq self1 (idx1 + b1) tk_comma of
                             Inl e \<Rightarrow> (Inl e, self1)
                           | Inr c \<Rightarrow>
                               if c then (Inr (idx1 + b1 + 1), self1)
                               else (case tk_eq self1 (idx1 + b1) tk_equals of
                                       Inl e \<Rightarrow> (Inl e, self1)
                                     | Inr c' \<Rightarrow>
                                         if c' then attr_value self1 (idx1 + b1 + 1) cls_attr
                                         else (Inr (idx1 + b1), self1)))))
               else (Inl (Exception (''Unexpected class attribute: '' @ [CHR 0x22] @ cls_attr
                                      @ [CHR 0x22] @ ''.'')), self)))"

text \<open>What a cell array loop that returns has kept: an invariant of its rounds.\<close>

lemma cell_loop_returns:
  assumes "cell_loop self idx a = (Inr i, s)"
    and "P idx self"
    and "\<And>s i a i' s'. P i s \<Longrightarrow> tk_ne s i tk_rbrace = Inr True
           \<Longrightarrow> cell_body s i a = (Inr i', s') \<Longrightarrow> P i' s'"
  shows "P i s"
  using assms(1,2)
proof (induction self idx a rule: cell_loop.induct)
  case (1 self idx cls_attr)
  show ?case
  proof (cases "tk_ne self idx tk_rbrace")
    case (Inl e)
    with 1(2) show ?thesis by (subst (asm) cell_loop.simps) simp
  next
    case (Inr c)
    show ?thesis
    proof (cases c)
      case False
      with Inr 1(2,3) show ?thesis by (subst (asm) cell_loop.simps) simp
    next
      case True
      obtain r s1 where body: "cell_body self idx cls_attr = (r, s1)" by force
      show ?thesis
      proof (cases r)
        case (Inl e)
        with Inr True body 1(2) show ?thesis by (subst (asm) cell_loop.simps) simp
      next
        case r: (Inr i1)
        have P1: "P i1 s1" using assms(3) [OF 1(3)] Inr True body r by simp
        have "cell_loop s1 i1 cls_attr = (Inr i, s)"
          using 1(2) Inr True body r by (subst (asm) cell_loop.simps) simp
        then show ?thesis
          using 1(1) [OF Inr True body [symmetric] r _ P1] by simp
      qed
    qed
  qed
qed

text \<open>What holds of the object after a cell array loop, returned or raised.\<close>

lemma cell_loop_invariant:
  assumes "P self"
    and "\<And>s i a r s'. P s \<Longrightarrow> cell_body s i a = (r, s') \<Longrightarrow> P s'"
  shows "P (snd (cell_loop self idx a))"
  using assms(1)
proof (induction self idx a rule: cell_loop.induct)
  case (1 self idx cls_attr)
  show ?case
  proof (cases "tk_ne self idx tk_rbrace")
    case (Inl e)
    with 1(2) show ?thesis by (subst cell_loop.simps) simp
  next
    case (Inr c)
    show ?thesis
    proof (cases c)
      case False
      with Inr 1(2) show ?thesis by (subst cell_loop.simps) simp
    next
      case True
      obtain r s1 where body: "cell_body self idx cls_attr = (r, s1)" by force
      have P1: "P s1" using assms(2) [OF 1(2) body] .
      show ?thesis
      proof (cases r)
        case (Inl e)
        with Inr True body P1 show ?thesis by (subst cell_loop.simps) simp
      next
        case r: (Inr i1)
        have "P (snd (cell_loop s1 i1 cls_attr))"
          using 1(1) [OF Inr True body [symmetric] r P1] .
        with Inr True body r show ?thesis by (subst cell_loop.simps) simp
      qed
    qed
  qed
qed

lemma cell_loop_progress:
  assumes "cell_loop self idx a = (Inr i, s)"
  shows "idx \<le> i \<and> tokens s = tokens self"
proof -
  have "idx \<le> i \<and> tokens s = tokens self"
    by (rule cell_loop_returns [OF assms, where P = "\<lambda>j t. idx \<le> j \<and> tokens t = tokens self"])
       (auto dest: cell_body_progress)
  then show ?thesis .
qed

lemma attr_value_progress:
  "attr_value self idx cls_attr = (Inr i, s) \<Longrightarrow> idx \<le> i \<and> tokens s = tokens self"
  unfolding attr_value_def
  by (auto split: sum.splits prod.splits if_splits dest!: cell_loop_progress)

lemma attr_body_progress:
  "attr_body self idx = (Inr i, s) \<Longrightarrow> idx < i \<and> tokens s = tokens self"
  unfolding attr_body_def Let_def
  by (auto split: sum.splits prod.splits if_splits dest!: attr_value_progress)

text \<open>The attribute loop (line 312): the closing parenthesis ends it.\<close>

function attr_loop :: "MatClass \<Rightarrow> nat \<Rightarrow> (error + nat) \<times> MatClass" where
  "attr_loop self idx =
     (case tk_ne self idx tk_rparen of
        Inl e \<Rightarrow> (Inl e, self)
      | Inr c \<Rightarrow>
          if c then
            (case attr_body self idx of
               (Inl e, s) \<Rightarrow> (Inl e, s)
             | (Inr idx', s) \<Rightarrow> attr_loop s idx')
          else (Inr idx, self))"
  by pat_completeness auto

termination
proof (relation "measure (\<lambda>(self, idx). length (tokens self) - idx)", goal_cases)
  case 1
  show ?case by simp
next
  case (2 self idx c r s i)
  from 2 have "idx < i" "tokens s = tokens self"
    using attr_body_progress [of self idx i s] by simp_all
  moreover from 2 have "idx < length (tokens self)" by (auto dest: tk_ne_Inr_less)
  ultimately show ?case by simp
qed

declare attr_loop.simps [simp del]

text \<open>The attribute list (lines 309 to 355), if an opening parenthesis starts one.\<close>

definition parse_attrs :: "MatClass \<Rightarrow> nat \<Rightarrow> (error + nat) \<times> MatClass" where
  "parse_attrs self idx =
     (case tk_eq self idx tk_lparen of
        Inl e \<Rightarrow> (Inl e, self)
      | Inr c \<Rightarrow>
          if c then
            (case attr_loop self (idx + 1) of
               (Inl e, s) \<Rightarrow> (Inl e, s)
             | (Inr idx', s) \<Rightarrow> (Inr (idx' + 1), s))
          else (Inr idx, self))"

subsection \<open>Class name (lines 358 to 363)\<close>

definition parse_classname :: "MatClass \<Rightarrow> nat \<Rightarrow> error + nat" where
  "parse_classname self idx =
     (case blanks self idx of
        Inl e \<Rightarrow> Inl e
      | Inr b \<Rightarrow>
          (case tk_ne self (idx + b) (Token_Name, name self) of
             Inl e \<Rightarrow> Inl e
           | Inr c \<Rightarrow>
               if c then
                 (case getitem self (idx + b) of
                    Inl e \<Rightarrow> Inl e
                  | Inr t \<Rightarrow>
                      Inl (Exception (''Unexpected class name: '' @ [CHR 0x22] @ snd t
                                       @ [CHR 0x22] @ ''.'')))
               else
                 (case blanks self (idx + b + 1) of
                    Inl e \<Rightarrow> Inl e
                  | Inr b1 \<Rightarrow> Inr (idx + b + 1 + b1))))"

subsection \<open>Superclasses (lines 366 to 388)\<close>

text \<open>The base name (lines 373 to 375): token texts up to a whitespace token.\<close>

function base_name_loop :: "MatClass \<Rightarrow> nat \<Rightarrow> string \<Rightarrow> error + nat \<times> string" where
  "base_name_loop self idx base_name =
     (case whitespace self idx of
        Inl e \<Rightarrow> Inl e
      | Inr w \<Rightarrow>
          if w = 0 then
            (case getitem self idx of
               Inl e \<Rightarrow> Inl e
             | Inr t \<Rightarrow> base_name_loop self (idx + 1) (base_name @ snd t))
          else Inr (idx, base_name))"
  by pat_completeness auto

termination
  by (relation "measure (\<lambda>(self, idx, base_name). length (tokens self) - idx)")
     (auto dest: getitem_Inr_less)

declare base_name_loop.simps [simp del]

lemma base_name_loop_ge: "base_name_loop self idx w = Inr (i, w') \<Longrightarrow> idx \<le> i"
  apply (induction self idx w rule: base_name_loop.induct)
  apply (subst (asm) (2) base_name_loop.simps)
  apply (fastforce split: sum.splits if_splits)
  done

text \<open>
  One round of the superclass loop (lines 370 to 384): skip blanks, read a base name,
  step over the token that ended it unless it is the newline, append the name if it is
  not empty, skip blanks, step over an ampersand.
\<close>

definition bases_body :: "MatClass \<Rightarrow> nat \<Rightarrow> (error + nat) \<times> MatClass" where
  "bases_body self idx =
     (case blanks self idx of
        Inl e \<Rightarrow> (Inl e, self)
      | Inr b \<Rightarrow>
          (case base_name_loop self (idx + b) [] of
             Inl e \<Rightarrow> (Inl e, self)
           | Inr (idx1, base_name) \<Rightarrow>
               (case tk_ne self idx1 tk_newline of
                  Inl e \<Rightarrow> (Inl e, self)
                | Inr c \<Rightarrow>
                    (let idx2 = (if c then idx1 + 1 else idx1);
                         self1 = (if base_name \<noteq> []
                                  then self\<lparr>bases := bases self @ [base_name]\<rparr> else self)
                     in (case blanks self1 idx2 of
                           Inl e \<Rightarrow> (Inl e, self1)
                         | Inr b1 \<Rightarrow>
                             (case tk_eq self1 (idx2 + b1) tk_amp of
                                Inl e \<Rightarrow> (Inl e, self1)
                              | Inr c1 \<Rightarrow>
                                  (Inr (if c1 then idx2 + b1 + 1 else idx2 + b1), self1)))))))"

lemma bases_body_progress:
  assumes "tk_ne self idx tk_newline = Inr True"
    and "bases_body self idx = (Inr i, s)"
  shows "idx < i \<and> tokens s = tokens self"
proof -
  from assms(2) obtain b idx1 base_name c where
    b: "blanks self idx = Inr b"
    and l: "base_name_loop self (idx + b) [] = Inr (idx1, base_name)"
    and c: "tk_ne self idx1 tk_newline = Inr c"
    and i: "(if c then idx1 + 1 else idx1) \<le> i"
    and t: "tokens s = tokens self"
    unfolding bases_body_def Let_def
    by (auto split: sum.splits prod.splits if_splits)
  from l have ge: "idx + b \<le> idx1" by (rule base_name_loop_ge)
  have "idx < i"
  proof (cases "idx1 = idx")
    case True
    with assms(1) c have "c" by simp
    with i True show ?thesis by simp
  next
    case False
    with ge i show ?thesis by (auto split: if_splits)
  qed
  with t show ?thesis by simp
qed

function bases_loop :: "MatClass \<Rightarrow> nat \<Rightarrow> (error + nat) \<times> MatClass" where
  "bases_loop self idx =
     (case tk_ne self idx tk_newline of
        Inl e \<Rightarrow> (Inl e, self)
      | Inr c \<Rightarrow>
          if c then
            (case bases_body self idx of
               (Inl e, s) \<Rightarrow> (Inl e, s)
             | (Inr idx', s) \<Rightarrow> bases_loop s idx')
          else (Inr idx, self))"
  by pat_completeness auto

termination
proof (relation "measure (\<lambda>(self, idx). length (tokens self) - idx)", goal_cases)
  case 1
  show ?case by simp
next
  case (2 self idx c r s i)
  from 2 have "idx < i" "tokens s = tokens self"
    using bases_body_progress [of self idx i s] by simp_all
  moreover from 2 have "idx < length (tokens self)" by (auto dest: tk_ne_Inr_less)
  ultimately show ?case by simp
qed

declare bases_loop.simps [simp del]

text \<open>
  The superclass list, if a \<open><\<close> starts one; otherwise a newline ends the signature, and
  anything else is left where it is.
\<close>

definition parse_bases :: "MatClass \<Rightarrow> nat \<Rightarrow> (error + nat) \<times> MatClass" where
  "parse_bases self idx =
     (case tk_eq self idx tk_less of
        Inl e \<Rightarrow> (Inl e, self)
      | Inr c \<Rightarrow>
          if c then
            (case bases_loop self (idx + 1) of
               (Inl e, s) \<Rightarrow> (Inl e, s)
             | (Inr idx', s) \<Rightarrow> (Inr (idx' + 1), s))
          else (case tk_eq self idx tk_newline of
                  Inl e \<Rightarrow> (Inl e, self)
                | Inr c1 \<Rightarrow> (Inr (if c1 then idx + 1 else idx), self)))"

subsection \<open>Docstring (lines 390 to 406)\<close>

text \<open>
  One round of the docstring loop (lines 397 to 406), entered at a Comment token: its
  text, the text of a newline token after it, and the indentation that follows.
\<close>

definition docstring_body :: "MatClass \<Rightarrow> nat \<Rightarrow> (error + nat) \<times> MatClass" where
  "docstring_body self idx =
     (case getitem self idx of
        Inl e \<Rightarrow> (Inl e, self)
      | Inr t \<Rightarrow>
          (let self1 = self\<lparr>docstring := docstring self @ snd t\<rparr>;
               idx1 = idx + 1
           in (case tk_eq self1 idx1 tk_newline of
                 Inl e \<Rightarrow> (Inl e, self1)
               | Inr c \<Rightarrow>
                   (case (if c then
                            (case getitem self1 idx1 of
                               Inl e \<Rightarrow> (Inl e, self1)
                             | Inr t1 \<Rightarrow>
                                 (Inr (idx1 + 1), self1\<lparr>docstring := docstring self1 @ snd t1\<rparr>))
                          else (Inr idx1, self1)) of
                      (Inl e, s) \<Rightarrow> (Inl e, s)
                    | (Inr idx2, s) \<Rightarrow>
                        (case indent s idx2 of
                           Inl e \<Rightarrow> (Inl e, s)
                         | Inr n \<Rightarrow> (Inr (if n \<noteq> 0 then idx2 + n else idx2), s))))))"

lemma docstring_body_progress:
  "docstring_body self idx = (Inr i, s) \<Longrightarrow> idx < i \<and> tokens s = tokens self"
  unfolding docstring_body_def Let_def
  by (auto split: sum.splits prod.splits if_splits)

function docstring_loop :: "MatClass \<Rightarrow> nat \<Rightarrow> (error + nat) \<times> MatClass" where
  "docstring_loop self idx =
     (case getitem self idx of
        Inl e \<Rightarrow> (Inl e, self)
      | Inr t \<Rightarrow>
          if fst t = Token_Comment then
            (case docstring_body self idx of
               (Inl e, s) \<Rightarrow> (Inl e, s)
             | (Inr idx', s) \<Rightarrow> docstring_loop s idx')
          else (Inr idx, self))"
  by pat_completeness auto

termination
proof (relation "measure (\<lambda>(self, idx). length (tokens self) - idx)", goal_cases)
  case 1
  show ?case by simp
next
  case (2 self idx t r s i)
  from 2 have "idx < i" "tokens s = tokens self"
    using docstring_body_progress [of self idx i s] by simp_all
  moreover from 2 have "idx < length (tokens self)" by (auto dest: getitem_Inr_less)
  ultimately show ?case by simp
qed

declare docstring_loop.simps [simp del]

text \<open>The docstring must be indented (lines 392 to 394).\<close>

definition parse_docstring :: "MatClass \<Rightarrow> nat \<Rightarrow> (error + nat) \<times> MatClass" where
  "parse_docstring self idx =
     (case indent self idx of
        Inl e \<Rightarrow> (Inl e, self)
      | Inr n \<Rightarrow> if n \<noteq> 0 then docstring_loop self (idx + n) else (Inr idx, self))"

subsection \<open>The constructor\<close>

text \<open>
  \<open>MatClass.__init__\<close>: the fields are set (lines 280 to 294), then the tokens are parsed
  from index 0. The result is the object as the call leaves it, with the index reached
  or the exception raised.
\<close>

definition MatClass_init :: "string \<Rightarrow> string \<Rightarrow> token list \<Rightarrow> (error + nat) \<times> MatClass" where
  "MatClass_init nm pth tks =
     (let self = \<lparr>name = nm, path = pth, tokens = tks, attrs = Map.empty, bases = [],
                  docstring = [], properties = Map.empty, methods = Map.empty\<rparr>
      in (case super_check Cls_MatClass Cls_MatClass of
            Inl e \<Rightarrow> (Inl e, self)
          | Inr u \<Rightarrow>
         (case tk_ne self 0 tk_classdef of
            Inl e \<Rightarrow> (Inl e, self)
          | Inr c \<Rightarrow>
              if c then (Inl (TypeError ''Object is not a class. Expected a class.''), self)
              else
                (case blanks self 1 of
                   Inl e \<Rightarrow> (Inl e, self)
                 | Inr b \<Rightarrow>
                     (case parse_attrs self (1 + b) of
                        (Inl e, s) \<Rightarrow> (Inl e, s)
                      | (Inr idx1, s) \<Rightarrow>
                          (case parse_classname s idx1 of
                             Inl e \<Rightarrow> (Inl e, s)
                           | Inr idx2 \<Rightarrow>
                               (case parse_bases s idx2 of
                                  (Inl e, s1) \<Rightarrow> (Inl e, s1)
                                | (Inr idx3, s1) \<Rightarrow> parse_docstring s1 idx3)))))))"

text \<open>
  The expression \<open>MatClass(name, path, tokens)\<close>: the object if \<open>__init__\<close> returns, the
  exception if it raises.
\<close>

definition MatClass_new :: "string \<Rightarrow> string \<Rightarrow> token list \<Rightarrow> error + MatClass" where
  "MatClass_new nm pth tks =
     (case MatClass_init nm pth tks of
        (Inl e, s) \<Rightarrow> Inl e
      | (Inr idx, s) \<Rightarrow> Inr s)"

section \<open>MatFunction and the dispatch of parse_mfile\<close>

text \<open>
  \<open>MatFunction.__init__\<close> (lines 248 to 253) calls \<open>super(MatClass, self)\<close> on an object
  of class MatFunction.
\<close>

definition MatFunction_new :: "string \<Rightarrow> string \<Rightarrow> token list \<Rightarrow> error + MatFunction" where
  "MatFunction_new nm pth tks =
     (case super_check Cls_MatClass Cls_MatFunction of
        Inl e \<Rightarrow> Inl e
      | Inr u \<Rightarrow> Inr \<lparr>name = nm, fn_path = pth, fn_tokens = tks\<rparr>)"

text \<open>
  \<open>MatObject.parse_mfile\<close> (lines 92 to 100) after the lexer has run: \<open>tks\<close> is the list
  of the tokens of the file. A script file gives None.
\<close>

definition parse_mfile :: "token list \<Rightarrow> string \<Rightarrow> string \<Rightarrow> error + matobject option" where
  "parse_mfile tks nm pth =
     (if tks = [] then Inl IndexError
      else if tks ! 0 = tk_function then
        (case MatFunction_new nm pth tks of
           Inl e \<Rightarrow> Inl e
         | Inr f \<Rightarrow> Inr (Some (Function f)))
      else if tks ! 0 = tk_classdef then
        (case MatClass_new nm pth tks of
           Inl e \<Rightarrow> Inl e
         | Inr c \<Rightarrow> Inr (Some (Class c)))
      else Inr None)"

section \<open>Token lists and predicates of the properties\<close>

text \<open>
  Two objects that differ at most in \<open>attrs\<close>, at most in \<open>bases\<close>, at most in
  \<open>docstring\<close>: what the attribute phase, the superclass phase and the docstring phase may
  change.
\<close>

definition only_attrs :: "MatClass \<Rightarrow> MatClass \<Rightarrow> bool" where
  "only_attrs self s \<longleftrightarrow>
     name s = name self \<and> path s = path self \<and> tokens s = tokens self
     \<and> bases s = bases self \<and> docstring s = docstring self
     \<and> properties s = properties self \<and> methods s = methods self"

definition only_bases :: "MatClass \<Rightarrow> MatClass \<Rightarrow> bool" where
  "only_bases self s \<longleftrightarrow>
     name s = name self \<and> path s = path self \<and> tokens s = tokens self
     \<and> attrs s = attrs self \<and> docstring s = docstring self
     \<and> properties s = properties self \<and> methods s = methods self"

definition only_docstring :: "MatClass \<Rightarrow> MatClass \<Rightarrow> bool" where
  "only_docstring self s \<longleftrightarrow>
     name s = name self \<and> path s = path self \<and> tokens s = tokens self
     \<and> attrs s = attrs self \<and> bases s = bases self
     \<and> properties s = properties self \<and> methods s = methods self"

text \<open>Token lists of small class files, for the instances below.\<close>

definition tokens_sealed_foo :: "token list" where
  \<comment> \<open>\<open>classdef (Sealed = true) Foo < Bar & Baz\<close>, two indented comment lines, \<open>end\<close>\<close>
  "tokens_sealed_foo =
     [tk_classdef, tk_blank, tk_lparen, (Token_Name, ''Sealed''), tk_blank, tk_equals,
      tk_blank, (Token_Name, ''true''), tk_rparen, tk_blank, (Token_Name, ''Foo''), tk_blank,
      tk_less, tk_blank, (Token_Name, ''Bar''), tk_blank, tk_amp, tk_blank,
      (Token_Name, ''Baz''), tk_newline,
      tk_blank, tk_blank, (Token_Comment, ''% does a thing''), tk_newline,
      tk_blank, tk_blank, (Token_Comment, ''% and more''), tk_newline,
      (Token_Keyword, ''end''), tk_newline]"

definition tokens_plain_foo :: "token list" where
  \<comment> \<open>\<open>classdef Foo\<close>, then \<open>end\<close>\<close>
  "tokens_plain_foo =
     [tk_classdef, tk_blank, (Token_Name, ''Foo''), tk_newline, (Token_Keyword, ''end''),
      tk_newline]"

text \<open>The tokens \<open>_indent\<close> and \<open>_whitespace\<close> count.\<close>

definition is_indent :: "token \<Rightarrow> bool" where
  "is_indent t \<longleftrightarrow> fst t = Token_Text \<and> snd t \<in> set ['' '', [CHR 0x09]]"

definition is_whitespace :: "token \<Rightarrow> bool" where
  "is_whitespace t \<longleftrightarrow> fst t = Token_Text \<and> snd t \<in> set ['' '', [CHR 0x0A], [CHR 0x09]]"

text \<open>
  An entry of an attribute list as the claims describe it: a name, alone or with an
  equals sign and \<open>true\<close> or \<open>false\<close>, and the widths of the four runs of blanks: before
  the name, after it, after the equals sign, after the value.
\<close>

datatype attr_item =
  Item (item_key: string) (item_val: "bool option")
       (item_b1: nat) (item_b2: nat) (item_b3: nat) (item_b4: nat)

definition bool_text :: "bool \<Rightarrow> string" where
  "bool_text v = (if v then ''true'' else ''false'')"

definition render_item :: "attr_item \<Rightarrow> token list" where
  "render_item it =
     replicate (item_b1 it) tk_blank @ (Token_Name, item_key it)
     # replicate (item_b2 it) tk_blank
     @ (case item_val it of
          None \<Rightarrow> []
        | Some v \<Rightarrow>
            tk_equals # replicate (item_b3 it) tk_blank @ (Token_Name, bool_text v)
            # replicate (item_b4 it) tk_blank)"

text \<open>What the entry stores: the text of the logical value, or the empty list.\<close>

definition item_value :: "attr_item \<Rightarrow> attr_value" where
  "item_value it = (case item_val it of None \<Rightarrow> AttrList [] | Some v \<Rightarrow> AttrStr (bool_text v))"

definition recognized :: "string \<Rightarrow> bool" where
  "recognized k \<longleftrightarrow> k \<in> set (map fst cls_attr_types)"

text \<open>The entries of a list, separated by commas; and each entry followed by a comma.\<close>

fun attr_list :: "attr_item list \<Rightarrow> token list" where
  "attr_list [] = []"
| "attr_list [it] = render_item it"
| "attr_list (it # its) = render_item it @ tk_comma # attr_list its"

definition attr_list_commas :: "attr_item list \<Rightarrow> token list" where
  "attr_list_commas items = concat (map (\<lambda>it. render_item it @ [tk_comma]) items)"

text \<open>What a list stores, entry by entry: a later entry of the same name wins.\<close>

definition store_items :: "(string \<rightharpoonup> attr_value) \<Rightarrow> attr_item list \<Rightarrow> (string \<rightharpoonup> attr_value)" where
  "store_items m items = foldl (\<lambda>m it. m(item_key it \<mapsto> item_value it)) m items"

text \<open>
  A class header up to the class name: the keyword, \<open>a\<close> blanks, an optional attribute
  list in parentheses followed by \<open>b\<close> blanks, the name, \<open>c\<close> blanks.
\<close>

definition class_header :: "nat \<Rightarrow> (attr_item list \<times> nat) option \<Rightarrow> string \<Rightarrow> nat \<Rightarrow> token list" where
  "class_header a al nm c =
     tk_classdef # replicate a tk_blank
     @ (case al of
          None \<Rightarrow> []
        | Some (items, b) \<Rightarrow> tk_lparen # attr_list items @ tk_rparen # replicate b tk_blank)
     @ (Token_Name, nm) # replicate c tk_blank"

definition header_recognized :: "(attr_item list \<times> nat) option \<Rightarrow> bool" where
  "header_recognized al =
     (case al of None \<Rightarrow> True | Some (items, b) \<Rightarrow> list_all (\<lambda>it. recognized (item_key it)) items)"

definition header_attrs :: "(attr_item list \<times> nat) option \<Rightarrow> (string \<rightharpoonup> attr_value)" where
  "header_attrs al = (case al of None \<Rightarrow> Map.empty | Some (items, b) \<Rightarrow> store_items Map.empty items)"

text \<open>
  A comment line: its indentation, a Comment token and a newline token. It is indented
  when the indentation is a run of blanks and tabs that is not empty.
\<close>

definition comment_line :: "token list \<times> string \<Rightarrow> token list" where
  "comment_line l = fst l @ [(Token_Comment, snd l), tk_newline]"

definition comment_text :: "token list \<times> string \<Rightarrow> string" where
  "comment_text l = snd l @ [CHR 0x0A]"

definition indented :: "token list \<times> string \<Rightarrow> bool" where
  "indented l \<longleftrightarrow> fst l \<noteq> [] \<and> list_all is_indent (fst l)"

section \<open>Lemmas\<close>

text \<open>The equations that run the parser on a given token list.\<close>

lemmas parser_eval =
  MatClass_new_def MatClass_init_def super_check_def tk_ne_def tk_eq_def getitem_def
  blanks_def blanks_loop.simps parse_attrs_def attr_loop.simps attr_body_def attr_value_def
  cell_loop.simps cell_body_def cell_word_loop.simps cls_attr_types_def
  parse_classname_def parse_bases_def bases_loop.simps bases_body_def base_name_loop.simps
  whitespace_def whitespace_loop.simps parse_docstring_def indent_def indent_loop.simps
  docstring_loop.simps docstring_body_def

subsection \<open>The dispatch on the function keyword\<close>

lemma parse_mfile_function_always_raises:
  assumes "tks \<noteq> []" and "tks ! 0 = tk_function"
  shows "parse_mfile tks nm pth
         = Inl (TypeError ''super(type, obj): obj must be an instance or subtype of type'')"
  using assms by (simp add: parse_mfile_def MatFunction_new_def super_check_def)

subsection \<open>Invariants of the loops\<close>

text \<open>
  What holds of the object after a loop of the constructor, returned or raised, when
  every round keeps it.
\<close>

lemma attr_loop_invariant:
  assumes "P self"
    and "\<And>s i r s'. P s \<Longrightarrow> attr_body s i = (r, s') \<Longrightarrow> P s'"
  shows "P (snd (attr_loop self idx))"
  using assms(1)
proof (induction self idx rule: attr_loop.induct)
  case (1 self idx)
  show ?case
  proof (cases "tk_ne self idx tk_rparen")
    case (Inl e)
    with 1(2) show ?thesis by (subst attr_loop.simps) simp
  next
    case (Inr c)
    show ?thesis
    proof (cases c)
      case False
      with Inr 1(2) show ?thesis by (subst attr_loop.simps) simp
    next
      case True
      obtain r s1 where body: "attr_body self idx = (r, s1)" by force
      have P1: "P s1" using assms(2) [OF 1(2) body] .
      show ?thesis
      proof (cases r)
        case (Inl e)
        with Inr True body P1 show ?thesis by (subst attr_loop.simps) simp
      next
        case r: (Inr i1)
        have "P (snd (attr_loop s1 i1))"
          using 1(1) [OF Inr True body [symmetric] r P1] .
        with Inr True body r show ?thesis by (subst attr_loop.simps) simp
      qed
    qed
  qed
qed

lemma bases_loop_invariant:
  assumes "P self"
    and "\<And>s i r s'. P s \<Longrightarrow> bases_body s i = (r, s') \<Longrightarrow> P s'"
  shows "P (snd (bases_loop self idx))"
  using assms(1)
proof (induction self idx rule: bases_loop.induct)
  case (1 self idx)
  show ?case
  proof (cases "tk_ne self idx tk_newline")
    case (Inl e)
    with 1(2) show ?thesis by (subst bases_loop.simps) simp
  next
    case (Inr c)
    show ?thesis
    proof (cases c)
      case False
      with Inr 1(2) show ?thesis by (subst bases_loop.simps) simp
    next
      case True
      obtain r s1 where body: "bases_body self idx = (r, s1)" by force
      have P1: "P s1" using assms(2) [OF 1(2) body] .
      show ?thesis
      proof (cases r)
        case (Inl e)
        with Inr True body P1 show ?thesis by (subst bases_loop.simps) simp
      next
        case r: (Inr i1)
        have "P (snd (bases_loop s1 i1))"
          using 1(1) [OF Inr True body [symmetric] r P1] .
        with Inr True body r show ?thesis by (subst bases_loop.simps) simp
      qed
    qed
  qed
qed

lemma docstring_loop_invariant:
  assumes "P self"
    and "\<And>s i r s'. P s \<Longrightarrow> docstring_body s i = (r, s') \<Longrightarrow> P s'"
  shows "P (snd (docstring_loop self idx))"
  using assms(1)
proof (induction self idx rule: docstring_loop.induct)
  case (1 self idx)
  show ?case
  proof (cases "getitem self idx")
    case (Inl e)
    with 1(2) show ?thesis by (subst docstring_loop.simps) simp
  next
    case (Inr t)
    show ?thesis
    proof (cases "fst t = Token_Comment")
      case False
      with Inr 1(2) show ?thesis by (subst docstring_loop.simps) simp
    next
      case True
      obtain r s1 where body: "docstring_body self idx = (r, s1)" by force
      have P1: "P s1" using assms(2) [OF 1(2) body] .
      show ?thesis
      proof (cases r)
        case (Inl e)
        with Inr True body P1 show ?thesis by (subst docstring_loop.simps) simp
      next
        case r: (Inr i1)
        have "P (snd (docstring_loop s1 i1))"
          using 1(1) [OF Inr True body [symmetric] r P1] .
        with Inr True body r show ?thesis by (subst docstring_loop.simps) simp
      qed
    qed
  qed
qed

subsection \<open>What each phase leaves alone\<close>

lemma cell_body_only_attrs: "cell_body self idx a = (r, s) \<Longrightarrow> only_attrs self s"
  unfolding cell_body_def only_attrs_def
  by (auto split: sum.splits prod.splits if_splits option.splits attr_value.splits)

lemma cell_loop_only_attrs:
  assumes "cell_loop self idx a = (r, s)"
  shows "only_attrs self s"
proof -
  have "only_attrs self (snd (cell_loop self idx a))"
  proof (rule cell_loop_invariant)
    show "only_attrs self self" by (simp add: only_attrs_def)
  next
    fix s i a r s'
    assume "only_attrs self s" and "cell_body s i a = (r, s')"
    then show "only_attrs self s'"
      using cell_body_only_attrs [of s i a r s'] by (simp add: only_attrs_def)
  qed
  with assms show ?thesis by simp
qed

lemma attr_value_only_attrs: "attr_value self idx a = (r, s) \<Longrightarrow> only_attrs self s"
  unfolding attr_value_def
  by (auto split: sum.splits prod.splits if_splits dest!: cell_loop_only_attrs
      simp: only_attrs_def)

lemma attr_body_only_attrs: "attr_body self idx = (r, s) \<Longrightarrow> only_attrs self s"
  unfolding attr_body_def Let_def
  by (auto split: sum.splits prod.splits if_splits dest!: attr_value_only_attrs
      simp: only_attrs_def)

lemma attr_loop_only_attrs:
  assumes "attr_loop self idx = (r, s)"
  shows "only_attrs self s"
proof -
  have "only_attrs self (snd (attr_loop self idx))"
  proof (rule attr_loop_invariant)
    show "only_attrs self self" by (simp add: only_attrs_def)
  next
    fix s i r s'
    assume "only_attrs self s" and "attr_body s i = (r, s')"
    then show "only_attrs self s'"
      using attr_body_only_attrs [of s i r s'] by (simp add: only_attrs_def)
  qed
  with assms show ?thesis by simp
qed

lemma parse_attrs_only_attrs: "parse_attrs self idx = (r, s) \<Longrightarrow> only_attrs self s"
  unfolding parse_attrs_def
  by (auto split: sum.splits prod.splits if_splits dest!: attr_loop_only_attrs
      simp: only_attrs_def)

lemma bases_body_only_bases: "bases_body self idx = (r, s) \<Longrightarrow> only_bases self s"
  unfolding bases_body_def Let_def only_bases_def
  by (auto split: sum.splits prod.splits if_splits)

lemma bases_loop_only_bases:
  assumes "bases_loop self idx = (r, s)"
  shows "only_bases self s"
proof -
  have "only_bases self (snd (bases_loop self idx))"
  proof (rule bases_loop_invariant)
    show "only_bases self self" by (simp add: only_bases_def)
  next
    fix s i r s'
    assume "only_bases self s" and "bases_body s i = (r, s')"
    then show "only_bases self s'"
      using bases_body_only_bases [of s i r s'] by (simp add: only_bases_def)
  qed
  with assms show ?thesis by simp
qed

lemma parse_bases_only_bases: "parse_bases self idx = (r, s) \<Longrightarrow> only_bases self s"
  unfolding parse_bases_def
  by (auto split: sum.splits prod.splits if_splits dest!: bases_loop_only_bases
      simp: only_bases_def)

lemma docstring_body_only_docstring:
  "docstring_body self idx = (r, s) \<Longrightarrow> only_docstring self s"
  unfolding docstring_body_def Let_def only_docstring_def
  by (auto split: sum.splits prod.splits if_splits)

lemma docstring_loop_only_docstring:
  assumes "docstring_loop self idx = (r, s)"
  shows "only_docstring self s"
proof -
  have "only_docstring self (snd (docstring_loop self idx))"
  proof (rule docstring_loop_invariant)
    show "only_docstring self self" by (simp add: only_docstring_def)
  next
    fix s i r s'
    assume "only_docstring self s" and "docstring_body s i = (r, s')"
    then show "only_docstring self s'"
      using docstring_body_only_docstring [of s i r s'] by (simp add: only_docstring_def)
  qed
  with assms show ?thesis by simp
qed

lemma parse_docstring_only_docstring:
  "parse_docstring self idx = (r, s) \<Longrightarrow> only_docstring self s"
  unfolding parse_docstring_def
  by (auto split: sum.splits prod.splits if_splits dest!: docstring_loop_only_docstring
      simp: only_docstring_def)

text \<open>
  The object the constructor leaves, returned or raised: the name, the path and the
  tokens it was given, and no properties or methods.
\<close>

lemma MatClass_init_fields:
  assumes "MatClass_init nm pth tks = (r, s)"
  shows "name s = nm \<and> path s = pth \<and> tokens s = tks
         \<and> properties s = Map.empty \<and> methods s = Map.empty"
  using assms unfolding MatClass_init_def Let_def
  by (auto split: sum.splits prod.splits if_splits
      dest!: parse_attrs_only_attrs parse_bases_only_bases parse_docstring_only_docstring
      simp: only_attrs_def only_bases_def only_docstring_def)

lemma MatClass_new_fields:
  assumes "MatClass_new nm pth tks = Inr c"
  shows "name c = nm \<and> path c = pth \<and> tokens c = tks
         \<and> properties c = Map.empty \<and> methods c = Map.empty"
proof -
  from assms obtain i where "MatClass_init nm pth tks = (Inr i, c)"
    by (auto simp: MatClass_new_def split: prod.splits sum.splits)
  then show ?thesis by (rule MatClass_init_fields)
qed

text \<open>No round of the superclass loop appends an empty name (line 379).\<close>

lemma bases_body_nonempty:
  "bases_body self idx = (r, s) \<Longrightarrow> [] \<notin> set (bases self) \<Longrightarrow> [] \<notin> set (bases s)"
  unfolding bases_body_def Let_def
  by (auto split: sum.splits prod.splits if_splits)

lemma bases_loop_nonempty:
  assumes "bases_loop self idx = (r, s)" and "[] \<notin> set (bases self)"
  shows "[] \<notin> set (bases s)"
proof -
  have "[] \<notin> set (bases (snd (bases_loop self idx)))"
  proof (rule bases_loop_invariant [where P = "\<lambda>t. [] \<notin> set (bases t)"])
    show "[] \<notin> set (bases self)" by (rule assms(2))
  next
    fix s i r s'
    assume "[] \<notin> set (bases s)" and "bases_body s i = (r, s')"
    then show "[] \<notin> set (bases s')" using bases_body_nonempty by blast
  qed
  with assms(1) show ?thesis by simp
qed

lemma parse_bases_nonempty:
  "parse_bases self idx = (r, s) \<Longrightarrow> [] \<notin> set (bases self) \<Longrightarrow> [] \<notin> set (bases s)"
  unfolding parse_bases_def
  by (auto split: sum.splits prod.splits if_splits dest: bases_loop_nonempty)

lemma MatClass_init_bases_nonempty:
  assumes "MatClass_init nm pth tks = (r, s)"
  shows "[] \<notin> set (bases s)"
  using assms unfolding MatClass_init_def Let_def
  by (auto split: sum.splits prod.splits if_splits
      dest!: parse_attrs_only_attrs parse_docstring_only_docstring
      dest: parse_bases_nonempty
      simp: only_attrs_def only_docstring_def)

lemma sealed_foo_parses:
  "MatClass_new ''Foo'' ''lib'' tokens_sealed_foo =
     Inr \<lparr>name = ''Foo'', path = ''lib'', tokens = tokens_sealed_foo,
          attrs = [''Sealed'' \<mapsto> AttrStr ''true''], bases = [''Bar'', ''Baz''],
          docstring = ''% does a thing'' @ [CHR 0x0A] @ ''% and more'' @ [CHR 0x0A],
          properties = Map.empty, methods = Map.empty\<rparr>"
  unfolding tokens_sealed_foo_def by (simp add: parser_eval)

lemma plain_foo_parses:
  "MatClass_new ''Foo'' ''lib'' tokens_plain_foo =
     Inr \<lparr>name = ''Foo'', path = ''lib'', tokens = tokens_plain_foo,
          attrs = Map.empty, bases = [], docstring = [],
          properties = Map.empty, methods = Map.empty\<rparr>"
  unfolding tokens_plain_foo_def by (simp add: parser_eval)

subsection \<open>Reading the token list by what lies ahead\<close>

text \<open>
  The probes of MatMixin, stated by the tokens from the index on: \<open>drop idx (tokens self)\<close>.
\<close>

lemma drop_shift: "drop i xs = ys @ zs \<Longrightarrow> drop (i + length ys) xs = zs"
  by (metis add.commute append_eq_conv_conj drop_drop)

lemma drop_next: "drop i xs = y # zs \<Longrightarrow> drop (Suc i) xs = zs"
  using drop_shift [of i xs "[y]" zs] by simp

lemma drop_Cons_less: "drop i xs = y # zs \<Longrightarrow> i < length xs"
  by (metis drop_all list.distinct(1) not_le)

lemma drop_Cons_nth: "drop i xs = y # zs \<Longrightarrow> xs ! i = y"
  by (metis drop_Cons_less hd_drop_conv_nth list.sel(1))

lemma getitem_ahead: "drop idx (tokens self) = t # r \<Longrightarrow> getitem self idx = Inr t"
  by (simp add: getitem_def drop_Cons_less drop_Cons_nth)

lemma getitem_at_end: "drop idx (tokens self) = [] \<Longrightarrow> getitem self idx = Inl IndexError"
  by (simp add: getitem_def)

lemma tk_eq_ahead: "drop idx (tokens self) = t # r \<Longrightarrow> tk_eq self idx t' = Inr (t = t')"
  by (cases t, cases t') (simp add: tk_eq_def getitem_ahead)

lemma tk_ne_ahead: "drop idx (tokens self) = t # r \<Longrightarrow> tk_ne self idx t' = Inr (t \<noteq> t')"
  by (cases t, cases t') (simp add: tk_ne_def getitem_ahead)

lemma blanks_loop_ahead:
  "drop idx (tokens self) = replicate k tk_blank @ t # r \<Longrightarrow> t \<noteq> tk_blank
   \<Longrightarrow> blanks_loop self idx = Inr (idx + k)"
proof (induction k arbitrary: idx)
  case 0
  then show ?case by (subst blanks_loop.simps) (simp add: tk_eq_ahead)
next
  case (Suc k)
  from Suc.prems(1) have here: "drop idx (tokens self) = tk_blank # (replicate k tk_blank @ t # r)"
    by simp
  from drop_next [OF here] Suc.prems(2)
  have "blanks_loop self (Suc idx) = Inr (Suc idx + k)" by (rule Suc.IH)
  then show ?case by (subst blanks_loop.simps) (simp add: tk_eq_ahead [OF here])
qed

lemma blanks_ahead:
  "drop idx (tokens self) = replicate k tk_blank @ t # r \<Longrightarrow> t \<noteq> tk_blank
   \<Longrightarrow> blanks self idx = Inr k"
  by (simp add: blanks_def blanks_loop_ahead)

lemma blanks_none: "drop idx (tokens self) = t # r \<Longrightarrow> t \<noteq> tk_blank \<Longrightarrow> blanks self idx = Inr 0"
  using blanks_ahead [of idx self 0 t r] by simp

lemma indent_loop_ahead:
  "drop idx (tokens self) = ws @ t # r \<Longrightarrow> list_all is_indent ws \<Longrightarrow> \<not> is_indent t
   \<Longrightarrow> indent_loop self idx = Inr (idx + length ws)"
proof (induction ws arbitrary: idx)
  case Nil
  then show ?case by (subst indent_loop.simps) (auto simp: getitem_ahead is_indent_def)
next
  case (Cons w ws)
  from Cons.prems(1) have here: "drop idx (tokens self) = w # (ws @ t # r)" by simp
  from drop_next [OF here] Cons.prems(2,3)
  have "indent_loop self (Suc idx) = Inr (Suc idx + length ws)" by (intro Cons.IH) simp_all
  with Cons.prems(2) show ?case
    by (subst indent_loop.simps) (simp add: getitem_ahead [OF here] is_indent_def)
qed

lemma indent_ahead:
  "drop idx (tokens self) = ws @ t # r \<Longrightarrow> list_all is_indent ws \<Longrightarrow> \<not> is_indent t
   \<Longrightarrow> indent self idx = Inr (length ws)"
  by (simp add: indent_def indent_loop_ahead)

lemma indent_loop_at_end:
  "drop idx (tokens self) = ws \<Longrightarrow> list_all is_indent ws
   \<Longrightarrow> indent_loop self idx = Inl IndexError"
proof (induction ws arbitrary: idx)
  case Nil
  then show ?case by (subst indent_loop.simps) (simp add: getitem_at_end)
next
  case (Cons w ws)
  from drop_next [OF Cons.prems(1)] Cons.prems(2)
  have "indent_loop self (Suc idx) = Inl IndexError" by (intro Cons.IH) simp_all
  with Cons.prems(2) show ?case
    by (subst indent_loop.simps) (simp add: getitem_ahead [OF Cons.prems(1)] is_indent_def)
qed

lemma indent_at_end:
  "drop idx (tokens self) = ws \<Longrightarrow> list_all is_indent ws \<Longrightarrow> indent self idx = Inl IndexError"
  by (simp add: indent_def indent_loop_at_end)

lemma whitespace_loop_ahead:
  "drop idx (tokens self) = ws @ t # r \<Longrightarrow> list_all is_whitespace ws \<Longrightarrow> \<not> is_whitespace t
   \<Longrightarrow> whitespace_loop self idx = Inr (idx + length ws)"
proof (induction ws arbitrary: idx)
  case Nil
  then show ?case by (subst whitespace_loop.simps) (auto simp: getitem_ahead is_whitespace_def)
next
  case (Cons w ws)
  from Cons.prems(1) have here: "drop idx (tokens self) = w # (ws @ t # r)" by simp
  from drop_next [OF here] Cons.prems(2,3)
  have "whitespace_loop self (Suc idx) = Inr (Suc idx + length ws)" by (intro Cons.IH) simp_all
  with Cons.prems(2) show ?case
    by (subst whitespace_loop.simps) (simp add: getitem_ahead [OF here] is_whitespace_def)
qed

lemma whitespace_ahead:
  "drop idx (tokens self) = ws @ t # r \<Longrightarrow> list_all is_whitespace ws \<Longrightarrow> \<not> is_whitespace t
   \<Longrightarrow> whitespace self idx = Inr (length ws)"
  by (simp add: whitespace_def whitespace_loop_ahead)

lemma whitespace_none:
  "drop idx (tokens self) = t # r \<Longrightarrow> \<not> is_whitespace t \<Longrightarrow> whitespace self idx = Inr 0"
  using whitespace_ahead [of idx self "[]" t r] by simp

lemma whitespace_loop_at_end:
  "drop idx (tokens self) = ws \<Longrightarrow> list_all is_whitespace ws
   \<Longrightarrow> whitespace_loop self idx = Inl IndexError"
proof (induction ws arbitrary: idx)
  case Nil
  then show ?case by (subst whitespace_loop.simps) (simp add: getitem_at_end)
next
  case (Cons w ws)
  from drop_next [OF Cons.prems(1)] Cons.prems(2)
  have "whitespace_loop self (Suc idx) = Inl IndexError" by (intro Cons.IH) simp_all
  with Cons.prems(2) show ?case
    by (subst whitespace_loop.simps) (simp add: getitem_ahead [OF Cons.prems(1)] is_whitespace_def)
qed

lemma whitespace_at_end:
  "drop idx (tokens self) = ws \<Longrightarrow> list_all is_whitespace ws
   \<Longrightarrow> whitespace self idx = Inl IndexError"
  by (simp add: whitespace_def whitespace_loop_at_end)

subsection \<open>Attribute lists with logical values\<close>

lemma attr_value_bool:
  assumes d: "drop idx (tokens self) =
                replicate b3 tk_blank @ (Token_Name, bool_text v) # replicate b4 tk_blank @ t # r"
    and t: "t \<noteq> tk_blank"
  shows "attr_value self idx k =
           (Inr (idx + b3 + 1 + b4 + (if t = tk_comma then 1 else 0)),
            self\<lparr>attrs := (attrs self)(k \<mapsto> AttrStr (bool_text v))\<rparr>)"
proof -
  have b: "blanks self idx = Inr b3" using d by (rule blanks_ahead) simp
  have d1: "drop (idx + b3) (tokens self) = (Token_Name, bool_text v) # replicate b4 tk_blank @ t # r"
    using drop_shift [of idx "tokens self" "replicate b3 tk_blank"] d by simp
  have g: "getitem self (idx + b3) = Inr (Token_Name, bool_text v)"
    using d1 by (rule getitem_ahead)
  let ?s = "self\<lparr>attrs := (attrs self)(k \<mapsto> AttrStr (bool_text v))\<rparr>"
  have d2: "drop (idx + b3 + 1) (tokens ?s) = replicate b4 tk_blank @ t # r"
    using drop_next [OF d1] by simp
  have b': "blanks ?s (idx + b3 + 1) = Inr b4" using d2 t by (rule blanks_ahead)
  have d3: "drop (idx + b3 + 1 + b4) (tokens ?s) = t # r"
    using drop_shift [OF d2] by simp
  have c: "tk_eq ?s (idx + b3 + 1 + b4) tk_comma = Inr (t = tk_comma)"
    using d3 by (rule tk_eq_ahead)
  show ?thesis
    unfolding attr_value_def using b g b' c by (simp add: bool_text_def)
qed

lemma attr_body_item:
  assumes k: "recognized (item_key it)"
    and d: "drop idx (tokens self) = render_item it @ t # r"
    and t: "t \<noteq> tk_blank" "item_val it = None \<longrightarrow> t \<noteq> tk_equals"
  shows "attr_body self idx =
           (Inr (idx + length (render_item it) + (if t = tk_comma then 1 else 0)),
            self\<lparr>attrs := (attrs self)(item_key it \<mapsto> item_value it)\<rparr>)"
proof -
  obtain key val b1 b2 b3 b4 where it: "it = Item key val b1 b2 b3 b4" by (cases it)
  let ?s1 = "self\<lparr>attrs := (attrs self)(key \<mapsto> AttrList [])\<rparr>"
  define tail where "tail = (case val of None \<Rightarrow> [] | Some v \<Rightarrow>
            tk_equals # replicate b3 tk_blank @ (Token_Name, bool_text v) # replicate b4 tk_blank) @ t # r"
  have d0: "drop idx (tokens self) = replicate b1 tk_blank @ (Token_Name, key) # replicate b2 tk_blank @ tail"
    using d by (simp add: it render_item_def tail_def split: option.splits)
  have b: "blanks self idx = Inr b1" using d0 by (rule blanks_ahead) simp
  have d1: "drop (idx + b1) (tokens self) = (Token_Name, key) # replicate b2 tk_blank @ tail"
    using drop_shift [of idx "tokens self" "replicate b1 tk_blank"] d0 by simp
  have g: "getitem self (idx + b1) = Inr (Token_Name, key)" using d1 by (rule getitem_ahead)
  have d2: "drop (idx + b1 + 1) (tokens ?s1) = replicate b2 tk_blank @ tail"
    using drop_next [OF d1] by simp
  have kk: "key \<in> set (map fst cls_attr_types)" using k by (simp add: recognized_def it)
  show ?thesis
  proof (cases val)
    case None
    then have tl: "tail = t # r" by (simp add: tail_def)
    have b': "blanks ?s1 (idx + b1 + 1) = Inr b2" using d2 t(1) unfolding tl by (rule blanks_ahead)
    have d3: "drop (idx + b1 + 1 + b2) (tokens ?s1) = t # r"
      using drop_shift [OF d2] by (simp add: tl)
    have c: "tk_eq ?s1 (idx + b1 + 1 + b2) tk_comma = Inr (t = tk_comma)"
      using d3 by (rule tk_eq_ahead)
    have e: "tk_eq ?s1 (idx + b1 + 1 + b2) tk_equals = Inr False"
      using tk_eq_ahead [OF d3, of tk_equals] t(2) None by (simp add: it)
    show ?thesis
      unfolding attr_body_def Let_def using b g b' c e kk None
      by (simp add: it render_item_def item_value_def)
  next
    case (Some v)
    define tail2 where "tail2 = replicate b3 tk_blank @ (Token_Name, bool_text v) # replicate b4 tk_blank @ t # r"
    from Some have tl: "tail = tk_equals # tail2" by (simp add: tail_def tail2_def)
    have b': "blanks ?s1 (idx + b1 + 1) = Inr b2" using d2 unfolding tl by (rule blanks_ahead) simp
    have d3: "drop (idx + b1 + 1 + b2) (tokens ?s1) = tk_equals # tail2"
      using drop_shift [OF d2] by (simp add: tl)
    have c: "tk_eq ?s1 (idx + b1 + 1 + b2) tk_comma = Inr False"
      using tk_eq_ahead [OF d3, of tk_comma] by simp
    have e: "tk_eq ?s1 (idx + b1 + 1 + b2) tk_equals = Inr True"
      using tk_eq_ahead [OF d3, of tk_equals] by simp
    have d4: "drop (idx + b1 + 1 + b2 + 1) (tokens ?s1) = tail2"
      using drop_next [OF d3] by simp
    have v: "attr_value ?s1 (idx + b1 + 1 + b2 + 1) key =
           (Inr (idx + b1 + 1 + b2 + 1 + b3 + 1 + b4 + (if t = tk_comma then 1 else 0)),
            ?s1\<lparr>attrs := (attrs ?s1)(key \<mapsto> AttrStr (bool_text v))\<rparr>)"
      using d4 t(1) unfolding tail2_def by (rule attr_value_bool)
    show ?thesis
      unfolding attr_body_def Let_def using b g b' c e kk Some v
      by (simp add: it render_item_def item_value_def)
  qed
qed

lemma attr_list_snoc: "attr_list (its @ [it]) = attr_list_commas its @ render_item it"
proof (induction its)
  case Nil
  show ?case by (simp add: attr_list_commas_def)
next
  case (Cons a its)
  then show ?case by (cases its) (simp_all add: attr_list_commas_def)
qed

lemma render_item_starts:
  "\<exists>t0 r0. render_item it @ x = t0 # r0 \<and> t0 \<noteq> tk_rparen"
  by (cases "item_b1 it") (simp_all add: render_item_def)

lemma attr_loop_stop:
  "tk_ne self idx tk_rparen = Inr False \<Longrightarrow> attr_loop self idx = (Inr idx, self)"
  by (subst attr_loop.simps) simp

lemma attr_loop_step:
  "tk_ne self idx tk_rparen = Inr True \<Longrightarrow> attr_body self idx = (Inr i, s)
   \<Longrightarrow> attr_loop self idx = attr_loop s i"
  by (subst attr_loop.simps) simp


lemma attr_loop_commas:
  assumes "list_all (\<lambda>it. recognized (item_key it)) items"
    and "drop idx (tokens self) = attr_list_commas items @ r"
  shows "attr_loop self idx =
           attr_loop (self\<lparr>attrs := store_items (attrs self) items\<rparr>)
             (idx + length (attr_list_commas items))"
  using assms
proof (induction items arbitrary: idx self)
  case Nil
  show ?case by (simp add: attr_list_commas_def store_items_def)
next
  case (Cons it items)
  let ?s = "self\<lparr>attrs := (attrs self)(item_key it \<mapsto> item_value it)\<rparr>"
  have d: "drop idx (tokens self) = render_item it @ tk_comma # (attr_list_commas items @ r)"
    using Cons.prems(2) by (simp add: attr_list_commas_def)
  obtain t0 r0 where t0: "drop idx (tokens self) = t0 # r0" "t0 \<noteq> tk_rparen"
    using render_item_starts [of it "tk_comma # (attr_list_commas items @ r)"] d by auto
  have test: "tk_ne self idx tk_rparen = Inr True"
    using tk_ne_ahead [OF t0(1), of tk_rparen] t0(2) by simp
  have body: "attr_body self idx = (Inr (idx + length (render_item it) + 1), ?s)"
    using attr_body_item [OF _ d] Cons.prems(1) by simp
  have d': "drop (idx + length (render_item it) + 1) (tokens ?s) = attr_list_commas items @ r"
    using drop_next [OF drop_shift [OF d]] by simp
  have "attr_loop ?s (idx + length (render_item it) + 1) =
          attr_loop (?s\<lparr>attrs := store_items (attrs ?s) items\<rparr>)
            (idx + length (render_item it) + 1 + length (attr_list_commas items))"
    using Cons.prems(1) d' by (intro Cons.IH) simp_all
  then show ?case
    using attr_loop_step [OF test body]
    by (simp add: store_items_def attr_list_commas_def add.assoc)
qed

lemma attr_loop_items:
  assumes "list_all (\<lambda>it. recognized (item_key it)) items"
    and "drop idx (tokens self) = attr_list items @ tk_rparen # r"
  shows "attr_loop self idx =
           (Inr (idx + length (attr_list items)),
            self\<lparr>attrs := store_items (attrs self) items\<rparr>)"
proof (cases items rule: rev_cases)
  case Nil
  with assms(2) have "tk_ne self idx tk_rparen = Inr False"
    using tk_ne_ahead [of idx self tk_rparen r tk_rparen] by simp
  then show ?thesis using Nil by (simp add: attr_loop_stop store_items_def)
next
  case (snoc its it)
  let ?s = "self\<lparr>attrs := store_items (attrs self) its\<rparr>"
  let ?i = "idx + length (attr_list_commas its)"
  let ?s' = "?s\<lparr>attrs := (attrs ?s)(item_key it \<mapsto> item_value it)\<rparr>"
  have rec: "list_all (\<lambda>it. recognized (item_key it)) its" "recognized (item_key it)"
    using assms(1) snoc by simp_all
  have d: "drop idx (tokens self) = attr_list_commas its @ (render_item it @ tk_rparen # r)"
    using assms(2) snoc by (simp add: attr_list_snoc)
  have first: "attr_loop self idx = attr_loop ?s ?i"
    using rec(1) d by (rule attr_loop_commas)
  have d1: "drop ?i (tokens ?s) = render_item it @ tk_rparen # r"
    using drop_shift [OF d] by simp
  obtain t0 r0 where t0: "drop ?i (tokens ?s) = t0 # r0" "t0 \<noteq> tk_rparen"
    using render_item_starts [of it "tk_rparen # r"] d1 by auto
  have test: "tk_ne ?s ?i tk_rparen = Inr True"
    using tk_ne_ahead [OF t0(1), of tk_rparen] t0(2) by simp
  have body: "attr_body ?s ?i = (Inr (?i + length (render_item it)), ?s')"
    using attr_body_item [OF rec(2) d1] by simp
  have d2: "drop (?i + length (render_item it)) (tokens ?s') = tk_rparen # r"
    using drop_shift [OF d1] by simp
  have stop: "tk_ne ?s' (?i + length (render_item it)) tk_rparen = Inr False"
    using tk_ne_ahead [OF d2, of tk_rparen] by simp
  have "attr_loop self idx = (Inr (?i + length (render_item it)), ?s')"
    using first attr_loop_step [OF test body] attr_loop_stop [OF stop] by simp
  then show ?thesis
    using snoc by (simp add: attr_list_snoc store_items_def add.assoc)
qed

lemma parse_attrs_items:
  assumes "list_all (\<lambda>it. recognized (item_key it)) items"
    and "drop idx (tokens self) = tk_lparen # attr_list items @ tk_rparen # r"
  shows "parse_attrs self idx =
           (Inr (idx + length (attr_list items) + 2),
            self\<lparr>attrs := store_items (attrs self) items\<rparr>)"
proof -
  have c: "tk_eq self idx tk_lparen = Inr True"
    using tk_eq_ahead [OF assms(2), of tk_lparen] by simp
  have "attr_loop self (idx + 1) =
           (Inr (idx + 1 + length (attr_list items)),
            self\<lparr>attrs := store_items (attrs self) items\<rparr>)"
    using assms(1) drop_next [OF assms(2)] by (intro attr_loop_items) simp_all
  with c show ?thesis by (simp add: parse_attrs_def)
qed

lemma parse_attrs_absent:
  assumes "drop idx (tokens self) = t # r" and "t \<noteq> tk_lparen"
  shows "parse_attrs self idx = (Inr idx, self)"
  using tk_eq_ahead [OF assms(1), of tk_lparen] assms(2) by (simp add: parse_attrs_def)

lemma store_items_map_of:
  "store_items m items = m ++ map_of (rev (map (\<lambda>it. (item_key it, item_value it)) items))"
  unfolding store_items_def
  by (induction items arbitrary: m) (simp_all add: map_add_upd_left)

subsection \<open>Class headers\<close>

lemma parse_classname_ahead:
  assumes "drop idx (tokens self) = replicate b tk_blank @ (Token_Name, name self) # replicate c tk_blank @ t # r"
    and "t \<noteq> tk_blank"
  shows "parse_classname self idx = Inr (idx + b + 1 + c)"
proof -
  have b: "blanks self idx = Inr b" using assms(1) by (rule blanks_ahead) simp
  have d1: "drop (idx + b) (tokens self) = (Token_Name, name self) # replicate c tk_blank @ t # r"
    using drop_shift [of idx "tokens self" "replicate b tk_blank"] assms(1) by simp
  have n: "tk_ne self (idx + b) (Token_Name, name self) = Inr False"
    using tk_ne_ahead [OF d1, of "(Token_Name, name self)"] by simp
  have b': "blanks self (idx + b + 1) = Inr c"
    using drop_next [OF d1] assms(2) by (intro blanks_ahead) simp_all
  show ?thesis unfolding parse_classname_def using b n b' by simp
qed

text \<open>
  After such a header the constructor stands at the next token, with the attributes of
  the list stored, and goes on with the superclasses and the docstring.
\<close>

lemma MatClass_init_header:
  assumes ok: "header_recognized al" and t: "t \<noteq> tk_blank"
    and tks_def: "tks = class_header a al nm c @ t # r"
    and s_def: "s = \<lparr>name = nm, path = pth, tokens = tks, attrs = header_attrs al, bases = [],
                  docstring = [], properties = Map.empty, methods = Map.empty\<rparr>"
  shows "MatClass_init nm pth tks =
           (case parse_bases s (length (class_header a al nm c)) of
              (Inl e, s1) \<Rightarrow> (Inl e, s1)
            | (Inr idx3, s1) \<Rightarrow> parse_docstring s1 idx3)"
proof -
  let ?self = "\<lparr>name = nm, path = pth, tokens = tks, attrs = Map.empty, bases = [],
                  docstring = [], properties = Map.empty, methods = Map.empty\<rparr>"
  define body where "body = (case al of
          None \<Rightarrow> []
        | Some (items, b) \<Rightarrow> tk_lparen # attr_list items @ tk_rparen # replicate b tk_blank)
     @ (Token_Name, nm) # replicate c tk_blank @ t # r"
  have tks: "tokens ?self = tk_classdef # replicate a tk_blank @ body"
    by (simp add: tks_def class_header_def body_def)
  have d0: "drop 0 (tokens ?self) = tk_classdef # replicate a tk_blank @ body"
    using tks by simp
  have kw: "tk_ne ?self 0 tk_classdef = Inr False"
    using tk_ne_ahead [OF d0, of tk_classdef] by simp
  have d1: "drop 1 (tokens ?self) = replicate a tk_blank @ body"
    using drop_next [OF d0] by simp
  have d2: "drop (1 + a) (tokens ?self) = body"
    using drop_shift [OF d1] by simp
  show ?thesis
  proof (cases al)
    case None
    then have body: "body = (Token_Name, nm) # replicate c tk_blank @ t # r"
      by (simp add: body_def)
    have b: "blanks ?self 1 = Inr a" using d1 unfolding body by (rule blanks_ahead) simp
    have at: "parse_attrs ?self (1 + a) = (Inr (1 + a), ?self)"
      using d2 unfolding body by (rule parse_attrs_absent) simp
    have cn: "parse_classname ?self (1 + a) = Inr (1 + a + 0 + 1 + c)"
      using d2 t unfolding body by (intro parse_classname_ahead) simp_all
    have len: "length (class_header a al nm c) = 1 + a + 0 + 1 + c"
      using None by (simp add: class_header_def)
    have s: "s = ?self" using None by (simp add: s_def header_attrs_def)
    show ?thesis
      unfolding MatClass_init_def Let_def len s
      using kw b at cn by (simp add: super_check_def)
  next
    case (Some p)
    obtain items b where p: "p = (items, b)" by (cases p)
    define tail where "tail = replicate b tk_blank @ (Token_Name, nm) # replicate c tk_blank @ t # r"
    have body: "body = tk_lparen # attr_list items @ tk_rparen # tail"
      using Some p by (simp add: body_def tail_def)
    have rec: "list_all (\<lambda>it. recognized (item_key it)) items"
      using ok Some p by (simp add: header_recognized_def)
    have b: "blanks ?self 1 = Inr a" using d1 unfolding body by (rule blanks_ahead) simp
    let ?s = "?self\<lparr>attrs := store_items (attrs ?self) items\<rparr>"
    have at: "parse_attrs ?self (1 + a) = (Inr (1 + a + length (attr_list items) + 2), ?s)"
      using rec d2 unfolding body by (rule parse_attrs_items)
    have d3: "drop (1 + a + length (attr_list items) + 2) (tokens ?s) = tail"
      using drop_next [OF drop_shift [OF drop_next [OF d2 [unfolded body]]]]
      by (simp add: add.commute add.left_commute)
    have cn: "parse_classname ?s (1 + a + length (attr_list items) + 2)
                = Inr (1 + a + length (attr_list items) + 2 + b + 1 + c)"
      using d3 t unfolding tail_def by (intro parse_classname_ahead) simp_all
    have len: "length (class_header a al nm c) = 1 + a + length (attr_list items) + 2 + b + 1 + c"
      using Some p by (simp add: class_header_def)
    have s: "s = ?s" using Some p by (simp add: s_def header_attrs_def)
    show ?thesis
      unfolding MatClass_init_def Let_def len s
      using kw b at cn by (simp add: super_check_def)
  qed
qed

lemma parse_bases_newline:
  assumes "drop idx (tokens self) = tk_newline # r"
  shows "parse_bases self idx = (Inr (idx + 1), self)"
  using tk_eq_ahead [OF assms, of tk_less] tk_eq_ahead [OF assms, of tk_newline]
  by (simp add: parse_bases_def)

lemma docstring_loop_stop:
  assumes "drop idx (tokens self) = t # r" and "fst t \<noteq> Token_Comment"
  shows "docstring_loop self idx = (Inr idx, self)"
  using getitem_ahead [OF assms(1)] assms(2) by (subst docstring_loop.simps) simp

lemma parse_docstring_none:
  assumes d: "drop idx (tokens self) = ws @ t # r"
    and ws: "list_all is_indent ws" and t: "\<not> is_indent t"
    and c: "ws \<noteq> [] \<longrightarrow> fst t \<noteq> Token_Comment"
  shows "parse_docstring self idx = (Inr (idx + length ws), self)"
proof -
  have n: "indent self idx = Inr (length ws)" using d ws t by (rule indent_ahead)
  show ?thesis
  proof (cases "ws = []")
    case True
    with n show ?thesis by (simp add: parse_docstring_def)
  next
    case False
    with c have "fst t \<noteq> Token_Comment" by simp
    with drop_shift [OF d] have "docstring_loop self (idx + length ws) = (Inr (idx + length ws), self)"
      by (rule docstring_loop_stop)
    with n False show ?thesis by (simp add: parse_docstring_def)
  qed
qed

subsection \<open>Superclass lists\<close>

lemma bases_loop_stop:
  "tk_ne self idx tk_newline = Inr False \<Longrightarrow> bases_loop self idx = (Inr idx, self)"
  by (subst bases_loop.simps) simp

lemma bases_loop_step:
  "tk_ne self idx tk_newline = Inr True \<Longrightarrow> bases_body self idx = (Inr i, s)
   \<Longrightarrow> bases_loop self idx = bases_loop s i"
  by (subst bases_loop.simps) simp

lemma bases_loop_raise:
  "tk_ne self idx tk_newline = Inr True \<Longrightarrow> bases_body self idx = (Inl e, s)
   \<Longrightarrow> bases_loop self idx = (Inl e, s)"
  by (subst bases_loop.simps) simp

text \<open>A base name that is one Name token: the loop stops at the whitespace after it.\<close>

lemma base_name_loop_name:
  assumes d: "drop idx (tokens self) = (Token_Name, A) # r"
    and w: "whitespace self (idx + 1) = Inr n" "n \<noteq> 0"
  shows "base_name_loop self idx acc = Inr (idx + 1, acc @ A)"
proof -
  have w0: "whitespace self idx = Inr 0"
    using d by (rule whitespace_none) (simp add: is_whitespace_def)
  have g: "getitem self idx = Inr (Token_Name, A)" using d by (rule getitem_ahead)
  have "base_name_loop self (idx + 1) (acc @ A) = Inr (idx + 1, acc @ A)"
    using w by (subst base_name_loop.simps) simp
  then show ?thesis using w0 g by (subst base_name_loop.simps) simp
qed

lemma base_name_loop_name_raises:
  assumes d: "drop idx (tokens self) = (Token_Name, A) # r"
    and w: "whitespace self (idx + 1) = Inl e"
  shows "base_name_loop self idx acc = Inl e"
proof -
  have w0: "whitespace self idx = Inr 0"
    using d by (rule whitespace_none) (simp add: is_whitespace_def)
  have g: "getitem self idx = Inr (Token_Name, A)" using d by (rule getitem_ahead)
  have "base_name_loop self (idx + 1) (acc @ A) = Inl e"
    using w by (subst base_name_loop.simps) simp
  then show ?thesis using w0 g by (subst base_name_loop.simps) simp
qed

text \<open>A round of the loop at a name that is followed by blanks and an ampersand.\<close>

lemma bases_body_amp:
  assumes d: "drop idx (tokens self) =
                replicate p tk_blank @ (Token_Name, A) # replicate (Suc q) tk_blank @ tk_amp # r"
    and A: "A \<noteq> []"
  shows "bases_body self idx = (Inr (idx + p + q + 3), self\<lparr>bases := bases self @ [A]\<rparr>)"
proof -
  let ?s = "self\<lparr>bases := bases self @ [A]\<rparr>"
  have b: "blanks self idx = Inr p" using d by (rule blanks_ahead) simp
  have d1: "drop (idx + p) (tokens self) = (Token_Name, A) # replicate (Suc q) tk_blank @ tk_amp # r"
    using drop_shift [of idx "tokens self" "replicate p tk_blank"] d by simp
  have d2: "drop (idx + p + 1) (tokens self) = replicate (Suc q) tk_blank @ tk_amp # r"
    using drop_next [OF d1] by simp
  have w: "whitespace self (idx + p + 1) = Inr (length (replicate (Suc q) tk_blank))"
    using d2 by (rule whitespace_ahead) (simp_all add: is_whitespace_def list_all_iff)
  have l: "base_name_loop self (idx + p) [] = Inr (idx + p + 1, [] @ A)"
    using d1 w by (rule base_name_loop_name) simp
  have d2': "drop (idx + p + 1) (tokens self) = tk_blank # (replicate q tk_blank @ tk_amp # r)"
    using d2 by simp
  have n: "tk_ne self (idx + p + 1) tk_newline = Inr True"
    using tk_ne_ahead [OF d2', of tk_newline] by simp
  have d3: "drop (idx + p + 1 + 1) (tokens ?s) = replicate q tk_blank @ tk_amp # r"
    using drop_next [OF d2'] by simp
  have b': "blanks ?s (idx + p + 1 + 1) = Inr q" using d3 by (rule blanks_ahead) simp
  have a: "tk_eq ?s (idx + p + 1 + 1 + q) tk_amp = Inr True"
    using tk_eq_ahead [OF drop_shift [OF d3], of tk_amp] by simp
  show ?thesis
    unfolding bases_body_def Let_def using b l n b' a A by simp
qed

lemma bases_loop_amp:
  assumes d: "drop idx (tokens self) =
                replicate p tk_blank @ (Token_Name, A) # replicate (Suc q) tk_blank @ tk_amp # r"
    and A: "A \<noteq> []"
  shows "bases_loop self idx = bases_loop (self\<lparr>bases := bases self @ [A]\<rparr>) (idx + p + q + 3)"
proof -
  have "\<exists>t0 r0. drop idx (tokens self) = t0 # r0 \<and> t0 \<noteq> tk_newline"
    unfolding d by (cases p) simp_all
  then obtain t0 r0 where t0: "drop idx (tokens self) = t0 # r0" "t0 \<noteq> tk_newline" by blast
  have "tk_ne self idx tk_newline = Inr True"
    using tk_ne_ahead [OF t0(1), of tk_newline] t0(2) by simp
  then show ?thesis using bases_body_amp [OF d A] by (rule bases_loop_step)
qed

text \<open>
  The round at the last name, which is followed by blanks and the newline. The base name
  loop counts the whitespace after the name, the newline and what follows it included,
  so the round returns only if some token after the newline is not whitespace.
\<close>

lemma bases_body_last:
  assumes d: "drop idx (tokens self) =
                replicate p tk_blank @ (Token_Name, C) # replicate q tk_blank @ tk_newline # ws @ t # r"
    and C: "C \<noteq> []"
    and ws: "list_all is_whitespace ws" "\<not> is_whitespace t"
  shows "bases_body self idx = (Inr (idx + p + 1 + q), self\<lparr>bases := bases self @ [C]\<rparr>)"
proof -
  let ?s = "self\<lparr>bases := bases self @ [C]\<rparr>"
  define rest where "rest = ws @ t # r"
  have b: "blanks self idx = Inr p" using d by (rule blanks_ahead) simp
  have d1: "drop (idx + p) (tokens self) = (Token_Name, C) # replicate q tk_blank @ tk_newline # rest"
    using drop_shift [of idx "tokens self" "replicate p tk_blank"] d by (simp add: rest_def)
  have d2: "drop (idx + p + 1) (tokens self) = replicate q tk_blank @ tk_newline # rest"
    using drop_next [OF d1] by simp
  have d2w: "drop (idx + p + 1) (tokens self) = (replicate q tk_blank @ tk_newline # ws) @ t # r"
    using d2 by (simp add: rest_def)
  have w: "whitespace self (idx + p + 1) = Inr (length (replicate q tk_blank @ tk_newline # ws))"
    using d2w by (rule whitespace_ahead) (use ws in \<open>auto simp: is_whitespace_def list_all_iff\<close>)
  have l: "base_name_loop self (idx + p) [] = Inr (idx + p + 1, [] @ C)"
    using d1 w by (rule base_name_loop_name) simp
  show ?thesis
  proof (cases q)
    case 0
    with d2 have d3: "drop (idx + p + 1) (tokens ?s) = tk_newline # rest" by simp
    have n: "tk_ne self (idx + p + 1) tk_newline = Inr False"
      using tk_ne_ahead [of "idx + p + 1" self tk_newline rest tk_newline] d3 by simp
    have b': "blanks ?s (idx + p + 1) = Inr 0" using d3 by (rule blanks_none) simp
    have a: "tk_eq ?s (idx + p + 1) tk_amp = Inr False"
      using tk_eq_ahead [OF d3, of tk_amp] by simp
    show ?thesis
      unfolding bases_body_def Let_def using b l n b' a C 0 by simp
  next
    case (Suc q')
    with d2 have d2': "drop (idx + p + 1) (tokens self) = tk_blank # (replicate q' tk_blank @ tk_newline # rest)"
      by simp
    have n: "tk_ne self (idx + p + 1) tk_newline = Inr True"
      using tk_ne_ahead [OF d2', of tk_newline] by simp
    have d3: "drop (idx + p + 1 + 1) (tokens ?s) = replicate q' tk_blank @ tk_newline # rest"
      using drop_next [OF d2'] by simp
    have b': "blanks ?s (idx + p + 1 + 1) = Inr q'" using d3 by (rule blanks_ahead) simp
    have a: "tk_eq ?s (idx + p + 1 + 1 + q') tk_amp = Inr False"
      using tk_eq_ahead [OF drop_shift [OF d3], of tk_amp] by simp
    show ?thesis
      unfolding bases_body_def Let_def using b l n b' a C Suc by simp
  qed
qed

lemma bases_body_last_raises:
  assumes d: "drop idx (tokens self) =
                replicate p tk_blank @ (Token_Name, C) # replicate q tk_blank @ tk_newline # rest"
    and ws: "list_all is_whitespace rest"
  shows "bases_body self idx = (Inl IndexError, self)"
proof -
  have b: "blanks self idx = Inr p" using d by (rule blanks_ahead) simp
  have d1: "drop (idx + p) (tokens self) = (Token_Name, C) # replicate q tk_blank @ tk_newline # rest"
    using drop_shift [of idx "tokens self" "replicate p tk_blank"] d by simp
  have d2: "drop (idx + p + 1) (tokens self) = replicate q tk_blank @ tk_newline # rest"
    using drop_next [OF d1] by simp
  have w: "whitespace self (idx + p + 1) = Inl IndexError"
    using d2 by (rule whitespace_at_end) (use ws in \<open>auto simp: is_whitespace_def list_all_iff\<close>)
  have l: "base_name_loop self (idx + p) [] = Inl IndexError"
    using d1 w by (rule base_name_loop_name_raises)
  show ?thesis unfolding bases_body_def using b l by simp
qed

lemma name_round_starts:
  "\<exists>t0 r0. replicate p tk_blank @ (Token_Name, C) # x = t0 # r0 \<and> t0 \<noteq> tk_newline"
  by (cases p) simp_all

lemma bases_loop_last:
  assumes d: "drop idx (tokens self) =
                replicate p tk_blank @ (Token_Name, C) # replicate q tk_blank @ tk_newline # ws @ t # r"
    and C: "C \<noteq> []"
    and ws: "list_all is_whitespace ws" "\<not> is_whitespace t"
  shows "bases_loop self idx = (Inr (idx + p + 1 + q), self\<lparr>bases := bases self @ [C]\<rparr>)"
proof -
  let ?s = "self\<lparr>bases := bases self @ [C]\<rparr>"
  obtain t0 r0 where t0: "drop idx (tokens self) = t0 # r0" "t0 \<noteq> tk_newline"
    using name_round_starts [of p C "replicate q tk_blank @ tk_newline # ws @ t # r"] d by auto
  have test: "tk_ne self idx tk_newline = Inr True"
    using tk_ne_ahead [OF t0(1), of tk_newline] t0(2) by simp
  have d1: "drop (idx + p + 1 + q) (tokens ?s) = tk_newline # ws @ t # r"
    using drop_shift [of idx "tokens self" "replicate p tk_blank @ (Token_Name, C) # replicate q tk_blank"] d
    by (simp add: add.assoc)
  have stop: "tk_ne ?s (idx + p + 1 + q) tk_newline = Inr False"
    using tk_ne_ahead [OF d1, of tk_newline] by simp
  show ?thesis
    using bases_loop_step [OF test bases_body_last [OF d C ws]] bases_loop_stop [OF stop] by simp
qed

lemma bases_loop_last_raises:
  assumes d: "drop idx (tokens self) =
                replicate p tk_blank @ (Token_Name, C) # replicate q tk_blank @ tk_newline # rest"
    and ws: "list_all is_whitespace rest"
  shows "bases_loop self idx = (Inl IndexError, self)"
proof -
  obtain t0 r0 where t0: "drop idx (tokens self) = t0 # r0" "t0 \<noteq> tk_newline"
    using name_round_starts [of p C "replicate q tk_blank @ tk_newline # rest"] d by auto
  have test: "tk_ne self idx tk_newline = Inr True"
    using tk_ne_ahead [OF t0(1), of tk_newline] t0(2) by simp
  show ?thesis using test bases_body_last_raises [OF d ws] by (rule bases_loop_raise)
qed

lemma first_not_whitespace:
  assumes "\<not> list_all is_whitespace rest"
  shows "\<exists>ws t r. rest = ws @ t # r \<and> list_all is_whitespace ws \<and> \<not> is_whitespace t"
proof -
  from assms have "\<exists>x \<in> set rest. \<not> is_whitespace x" by (simp add: list_all_iff)
  from split_list_first_prop [OF this] show ?thesis
    by (auto simp: list_all_iff)
qed

subsection \<open>The end of the token list\<close>

text \<open>
  A header with nothing after its newline but blanks and tabs: measuring the indentation
  runs off the end of the token list.
\<close>

lemma plain_header_then_end_raises:
  assumes "list_all is_indent ws"
    and "tks = tk_classdef # replicate a tk_blank @ (Token_Name, nm) # replicate b tk_blank
               @ tk_newline # ws"
  shows "MatClass_new nm pth tks = Inl IndexError"
proof -
  let ?s = "\<lparr>name = nm, path = pth, tokens = tks, attrs = Map.empty, bases = [],
                docstring = [], properties = Map.empty, methods = Map.empty\<rparr>"
  let ?h = "class_header a None nm b"
  have tks: "tks = ?h @ tk_newline # ws"
    using assms(2) by (simp add: class_header_def)
  have s: "?s = \<lparr>name = nm, path = pth, tokens = tks, attrs = header_attrs None, bases = [],
                docstring = [], properties = Map.empty, methods = Map.empty\<rparr>"
    by (simp add: header_attrs_def)
  have init: "MatClass_init nm pth tks =
           (case parse_bases ?s (length ?h) of
              (Inl e, s1) \<Rightarrow> (Inl e, s1)
            | (Inr idx3, s1) \<Rightarrow> parse_docstring s1 idx3)"
    by (rule MatClass_init_header [OF _ _ tks s]) (simp_all add: header_recognized_def)
  have d: "drop (length ?h) (tokens ?s) = tk_newline # ws"
    by (simp add: tks)
  have pb: "parse_bases ?s (length ?h) = (Inr (length ?h + 1), ?s)"
    using d by (rule parse_bases_newline)
  have "indent ?s (length ?h + 1) = Inl IndexError"
    using drop_next [OF d] assms(1) by (intro indent_at_end) simp_all
  then have pd: "parse_docstring ?s (length ?h + 1) = (Inl IndexError, ?s)"
    by (simp add: parse_docstring_def)
  show ?thesis
    unfolding MatClass_new_def init pb using pd by simp
qed

subsection \<open>Docstrings\<close>

lemma comment_line_pair: "comment_line (ws, tx) = ws @ [(Token_Comment, tx), tk_newline]"
  by (simp add: comment_line_def)

lemma comment_text_pair: "comment_text (ws, tx) = tx @ [CHR 0x0A]"
  by (simp add: comment_text_def)

lemma docstring_loop_step:
  "getitem self idx = Inr t \<Longrightarrow> fst t = Token_Comment \<Longrightarrow> docstring_body self idx = (Inr i, s)
   \<Longrightarrow> docstring_loop self idx = docstring_loop s i"
  by (subst docstring_loop.simps) simp

lemma docstring_body_line:
  assumes d: "drop idx (tokens self) = (Token_Comment, tx) # tk_newline # ws @ t # r"
    and ws: "list_all is_indent ws" "\<not> is_indent t"
  shows "docstring_body self idx =
           (Inr (idx + 2 + length ws), self\<lparr>docstring := docstring self @ tx @ [CHR 0x0A]\<rparr>)"
proof -
  let ?s1 = "self\<lparr>docstring := docstring self @ tx\<rparr>"
  let ?s2 = "?s1\<lparr>docstring := docstring ?s1 @ [CHR 0x0A]\<rparr>"
  have g: "getitem self idx = Inr (Token_Comment, tx)" using d by (rule getitem_ahead)
  have d1: "drop (idx + 1) (tokens ?s1) = tk_newline # ws @ t # r"
    using drop_next [OF d] by simp
  have n: "tk_eq ?s1 (idx + 1) tk_newline = Inr True"
    using tk_eq_ahead [OF d1, of tk_newline] by simp
  have g1: "getitem ?s1 (idx + 1) = Inr tk_newline" using d1 by (rule getitem_ahead)
  have d2: "drop (idx + 1 + 1) (tokens ?s2) = ws @ t # r"
    using drop_next [OF d1] by simp
  have i: "indent ?s2 (idx + 1 + 1) = Inr (length ws)" using d2 ws by (rule indent_ahead)
  show ?thesis
    unfolding docstring_body_def Let_def using g n g1 i by simp
qed

lemma docstring_loop_lines:
  assumes "list_all indented ls" and "\<not> is_indent t" and "fst t \<noteq> Token_Comment"
    and "drop idx (tokens self) =
           (Token_Comment, tx) # tk_newline # concat (map comment_line ls) @ t # r"
  shows "docstring_loop self idx =
           (Inr (idx + 2 + length (concat (map comment_line ls))),
            self\<lparr>docstring := docstring self @ tx @ [CHR 0x0A] @ concat (map comment_text ls)\<rparr>)"
  using assms
proof (induction ls arbitrary: self idx tx)
  case Nil
  let ?s = "self\<lparr>docstring := docstring self @ tx @ [CHR 0x0A]\<rparr>"
  from Nil.prems(4) have d: "drop idx (tokens self) = (Token_Comment, tx) # tk_newline # [] @ t # r"
    by simp
  have g: "getitem self idx = Inr (Token_Comment, tx)" using d by (rule getitem_ahead)
  have body: "docstring_body self idx = (Inr (idx + 2 + length ([]::token list)), ?s)"
    using d _ Nil.prems(2) by (rule docstring_body_line) simp
  have "drop (idx + 2) (tokens ?s) = t # r"
    using drop_next [OF drop_next [OF d]] by simp
  then have stop: "docstring_loop ?s (idx + 2) = (Inr (idx + 2), ?s)"
    using Nil.prems(3) by (rule docstring_loop_stop)
  show ?case
    using docstring_loop_step [OF g _ body] stop by simp
next
  case (Cons l ls)
  obtain ws tx2 where l: "l = (ws, tx2)" by (cases l)
  let ?s = "self\<lparr>docstring := docstring self @ tx @ [CHR 0x0A]\<rparr>"
  define tail where "tail = tk_newline # concat (map comment_line ls) @ t # r"
  from Cons.prems(1) have "indented (ws, tx2)" and ls: "list_all indented ls"
    by (simp_all add: l)
  then have ws: "ws \<noteq> []" "list_all is_indent ws"
    by (simp_all add: indented_def)
  from Cons.prems(4) have d: "drop idx (tokens self) =
      (Token_Comment, tx) # tk_newline # ws @ (Token_Comment, tx2) # tail"
    by (simp add: l comment_line_pair tail_def)
  have g: "getitem self idx = Inr (Token_Comment, tx)" using d by (rule getitem_ahead)
  have body: "docstring_body self idx = (Inr (idx + 2 + length ws), ?s)"
    using d ws(2) by (rule docstring_body_line) (simp add: is_indent_def)
  have d': "drop (idx + 2 + length ws) (tokens ?s) =
      (Token_Comment, tx2) # tk_newline # concat (map comment_line ls) @ t # r"
    using drop_shift [OF drop_next [OF drop_next [OF d]]] by (simp add: tail_def)
  have "docstring_loop ?s (idx + 2 + length ws) =
           (Inr (idx + 2 + length ws + 2 + length (concat (map comment_line ls))),
            ?s\<lparr>docstring := docstring ?s @ tx2 @ [CHR 0x0A] @ concat (map comment_text ls)\<rparr>)"
    using ls Cons.prems(2,3) d' by (rule Cons.IH)
  then show ?case
    using docstring_loop_step [OF g _ body]
    by (simp add: l comment_line_pair comment_text_pair)
qed

text \<open>
  What the docstring phase does with indented comment lines, each ended by a newline
  token, when the token after them is neither indentation nor a Comment: the docstring
  is the text of the lines, each with its newline.
\<close>

lemma indented_comment_lines_docstring:
  assumes ok: "header_recognized al"
    and lns: "lines \<noteq> []" "list_all indented lines"
    and t: "\<not> is_indent t" "fst t \<noteq> Token_Comment"
    and tks: "tks = class_header a al nm c @ tk_newline # concat (map comment_line lines) @ t # r"
  shows "MatClass_new nm pth tks =
           Inr \<lparr>name = nm, path = pth, tokens = tks, attrs = header_attrs al, bases = [],
                docstring = concat (map comment_text lines),
                properties = Map.empty, methods = Map.empty\<rparr>"
proof -
  let ?h = "class_header a al nm c"
  define s where "s = \<lparr>name = nm, path = pth, tokens = tks, attrs = header_attrs al, bases = [],
                  docstring = [], properties = Map.empty, methods = Map.empty\<rparr>"
  obtain ws tx ls where l: "lines = (ws, tx) # ls"
    using lns(1) by (cases lines) auto
  from lns(2) have "indented (ws, tx)" and ls: "list_all indented ls"
    by (simp_all add: l)
  then have ws: "ws \<noteq> []" "list_all is_indent ws"
    by (simp_all add: indented_def)
  define tail where "tail = tk_newline # concat (map comment_line ls) @ t # r"
  have init: "MatClass_init nm pth tks =
           (case parse_bases s (length ?h) of
              (Inl e, s1) \<Rightarrow> (Inl e, s1)
            | (Inr idx3, s1) \<Rightarrow> parse_docstring s1 idx3)"
    using ok _ tks s_def by (rule MatClass_init_header) simp
  have d: "drop (length ?h) (tokens s) = tk_newline # ws @ (Token_Comment, tx) # tail"
    by (simp add: s_def tks l comment_line_pair tail_def)
  have pb: "parse_bases s (length ?h) = (Inr (length ?h + 1), s)"
    using d by (rule parse_bases_newline)
  have d1: "drop (length ?h + 1) (tokens s) = ws @ (Token_Comment, tx) # tail"
    using drop_next [OF d] by simp
  have i: "indent s (length ?h + 1) = Inr (length ws)"
    using d1 ws(2) by (rule indent_ahead) (simp add: is_indent_def)
  have d2: "drop (length ?h + 1 + length ws) (tokens s) =
      (Token_Comment, tx) # tk_newline # concat (map comment_line ls) @ t # r"
    using drop_shift [OF d1] by (simp add: tail_def)
  have dl: "docstring_loop s (length ?h + 1 + length ws) =
           (Inr (length ?h + 1 + length ws + 2 + length (concat (map comment_line ls))),
            s\<lparr>docstring := docstring s @ tx @ [CHR 0x0A] @ concat (map comment_text ls)\<rparr>)"
    using ls t d2 by (rule docstring_loop_lines)
  have pd: "parse_docstring s (length ?h + 1) =
           (Inr (length ?h + 1 + length ws + 2 + length (concat (map comment_line ls))),
            s\<lparr>docstring := docstring s @ tx @ [CHR 0x0A] @ concat (map comment_text ls)\<rparr>)"
    using i ws(1) dl by (simp add: parse_docstring_def)
  show ?thesis
    unfolding MatClass_new_def init pb using pd
    by (simp add: s_def l comment_text_pair)
qed

section \<open>The claims\<close>

text \<open>
  Claim C1, as stated, fails: the claim is that the keyword, the expected name and a
  newline are enough for the constructor to return. After the newline the constructor
  measures the indentation (line 392), which reads the next token; when the token list
  ends with the newline, or with blanks and tabs after it, that read raises IndexError.
\<close>

theorem plain_header_alone_raises:
  "MatClass_new ''Foo'' ''lib'' [tk_classdef, tk_blank, (Token_Name, ''Foo''), tk_newline]
   = Inl IndexError"
  by (simp add: parser_eval)

text \<open>
  Claim C1, amended. Let the token list be the keyword, any number of blanks, the
  expected name, any number of blanks and a newline, and let it go on with a run \<open>ws\<close> of
  blanks and tabs (possibly empty) and a token \<open>t\<close> that is neither, where \<open>t\<close> is no Comment
  if the run is not empty (no indented comment line). Then the constructor returns the
  class with no attributes, no bases and the empty docstring.
\<close>

theorem plain_header_parses:
  assumes "list_all is_indent ws" and "\<not> is_indent t"
    and "ws \<noteq> [] \<longrightarrow> fst t \<noteq> Token_Comment"
    and "tks = tk_classdef # replicate a tk_blank @ (Token_Name, nm) # replicate b tk_blank
               @ tk_newline # ws @ t # rest"
  shows "MatClass_new nm pth tks =
           Inr \<lparr>name = nm, path = pth, tokens = tks, attrs = Map.empty, bases = [],
                docstring = [], properties = Map.empty, methods = Map.empty\<rparr>"
proof -
  let ?s = "\<lparr>name = nm, path = pth, tokens = tks, attrs = Map.empty, bases = [],
                docstring = [], properties = Map.empty, methods = Map.empty\<rparr>"
  let ?h = "class_header a None nm b"
  have tks: "tks = ?h @ tk_newline # (ws @ t # rest)"
    using assms(4) by (simp add: class_header_def)
  have s: "?s = \<lparr>name = nm, path = pth, tokens = tks, attrs = header_attrs None, bases = [],
                docstring = [], properties = Map.empty, methods = Map.empty\<rparr>"
    by (simp add: header_attrs_def)
  have init: "MatClass_init nm pth tks =
           (case parse_bases ?s (length ?h) of
              (Inl e, s1) \<Rightarrow> (Inl e, s1)
            | (Inr idx3, s1) \<Rightarrow> parse_docstring s1 idx3)"
    by (rule MatClass_init_header [OF _ _ tks s]) (simp_all add: header_recognized_def)
  have d: "drop (length ?h) (tokens ?s) = tk_newline # (ws @ t # rest)"
    by (simp add: tks)
  have pb: "parse_bases ?s (length ?h) = (Inr (length ?h + 1), ?s)"
    using d by (rule parse_bases_newline)
  have pd: "parse_docstring ?s (length ?h + 1) = (Inr (length ?h + 1 + length ws), ?s)"
    using drop_next [OF d] assms(1,2,3) by (intro parse_docstring_none) simp_all
  show ?thesis
    unfolding MatClass_new_def init pb using pd by simp
qed

theorem plain_header_parses_witness:
  "list_all is_indent [tk_blank, tk_tab] \<and> \<not> is_indent (Token_Keyword, ''properties'')
   \<and> MatClass_new ''Foo'' ''lib''
        [tk_classdef, tk_blank, (Token_Name, ''Foo''), tk_newline, tk_blank, tk_tab,
         (Token_Keyword, ''properties''), tk_newline]
      = Inr \<lparr>name = ''Foo'', path = ''lib'',
             tokens = [tk_classdef, tk_blank, (Token_Name, ''Foo''), tk_newline, tk_blank,
                       tk_tab, (Token_Keyword, ''properties''), tk_newline],
             attrs = Map.empty, bases = [], docstring = [],
             properties = Map.empty, methods = Map.empty\<rparr>"
  using plain_header_parses [of "[tk_blank, tk_tab]" "(Token_Keyword, ''properties'')"
      "[tk_classdef, tk_blank, (Token_Name, ''Foo''), tk_newline, tk_blank, tk_tab,
         (Token_Keyword, ''properties''), tk_newline]" "Suc 0" "''Foo''" 0 "[tk_newline]" "''lib''"]
  by (simp add: is_indent_def)

text \<open>
  Claim C2. If the token at index 0 is not the keyword \<open>classdef\<close>, constructing the
  class raises the TypeError of line 301 (the error the specification calls NotAClass),
  and the constructor expression yields no class at all.
\<close>

theorem not_a_class_raises:
  assumes "tks \<noteq> []" and "tks ! 0 \<noteq> tk_classdef"
  shows "MatClass_new nm pth tks = Inl (TypeError ''Object is not a class. Expected a class.'')
         \<and> (\<nexists>c. MatClass_new nm pth tks = Inr c)"
proof -
  from assms(1) have len: "0 < length tks" by simp
  from assms(2) have ne: "fst (tks ! 0) \<noteq> Token_Keyword \<or> snd (tks ! 0) \<noteq> ''classdef''"
    by (cases "tks ! 0") auto
  have "MatClass_new nm pth tks = Inl (TypeError ''Object is not a class. Expected a class.'')"
    using len ne
    by (simp add: MatClass_new_def MatClass_init_def super_check_def tk_ne_def getitem_def)
  then show ?thesis by simp
qed

theorem not_a_class_raises_witness:
  "[tk_function, tk_blank, (Token_Name, ''foo'')] \<noteq> []
   \<and> [tk_function, tk_blank, (Token_Name, ''foo'')] ! 0 \<noteq> tk_classdef
   \<and> MatClass_new ''foo'' ''lib'' [tk_function, tk_blank, (Token_Name, ''foo'')]
       = Inl (TypeError ''Object is not a class. Expected a class.'')"
  using not_a_class_raises [of "[tk_function, tk_blank, (Token_Name, ''foo'')]" "''foo''" "''lib''"]
  by simp

text \<open>
  Claim C3. Let the attribute list of a class header hold recognised names only, each
  with \<open>= true\<close> or \<open>= false\<close>, separated by commas, with runs of blanks of any widths
  around the names, the equals signs and the values. If the constructor returns a
  class, the keys of its \<open>attrs\<close> are exactly the names of the list, and each name is
  mapped to the text of its logical value (the last one, if a name is repeated): the
  widths of the runs of blanks do not matter.
\<close>

theorem boolean_attributes_stored:
  assumes items: "list_all (\<lambda>it. recognized (item_key it) \<and> item_val it \<noteq> None) items"
    and new: "MatClass_new nm pth
             (tk_classdef # replicate a tk_blank @ tk_lparen # attr_list items @ tk_rparen # rest)
           = Inr c"
  shows "dom (attrs c) = item_key ` set items
         \<and> attrs c = map_of (rev (map (\<lambda>it. (item_key it, AttrStr (bool_text (the (item_val it))))) items))
         \<and> (distinct (map item_key items) \<longrightarrow>
              (\<forall>it \<in> set items. attrs c (item_key it) = Some (AttrStr (bool_text (the (item_val it))))))"
proof -
  define tks where "tks = tk_classdef # replicate a tk_blank @ tk_lparen # attr_list items @ tk_rparen # rest"
  let ?self = "\<lparr>name = nm, path = pth, tokens = tks, attrs = Map.empty, bases = [],
                  docstring = [], properties = Map.empty, methods = Map.empty\<rparr>"
  let ?s = "?self\<lparr>attrs := store_items (attrs ?self) items\<rparr>"
  have rec: "list_all (\<lambda>it. recognized (item_key it)) items"
    using items by (simp add: list_all_iff)
  have d0: "drop 0 (tokens ?self) = tk_classdef # replicate a tk_blank @ tk_lparen # attr_list items @ tk_rparen # rest"
    by (simp add: tks_def)
  have kw: "tk_ne ?self 0 tk_classdef = Inr False"
    using tk_ne_ahead [OF d0, of tk_classdef] by simp
  have d1: "drop 1 (tokens ?self) = replicate a tk_blank @ tk_lparen # attr_list items @ tk_rparen # rest"
    using drop_next [OF d0] by simp
  have b: "blanks ?self 1 = Inr a" using d1 by (rule blanks_ahead) simp
  have d2: "drop (1 + a) (tokens ?self) = tk_lparen # attr_list items @ tk_rparen # rest"
    using drop_shift [OF d1] by simp
  have at: "parse_attrs ?self (1 + a) = (Inr (1 + a + length (attr_list items) + 2), ?s)"
    using rec d2 by (rule parse_attrs_items)
  obtain i where "MatClass_init nm pth tks = (Inr i, c)"
    using new unfolding tks_def [symmetric]
    by (auto simp: MatClass_new_def split: prod.splits sum.splits)
  then have "attrs c = attrs ?s"
    unfolding MatClass_init_def Let_def using kw b at
    by (auto simp: super_check_def only_bases_def only_docstring_def
        split: sum.splits prod.splits
        dest!: parse_bases_only_bases parse_docstring_only_docstring)
  then have a: "attrs c = map_of (rev (map (\<lambda>it. (item_key it, item_value it)) items))"
    by (simp add: store_items_map_of)
  have v: "map (\<lambda>it. (item_key it, item_value it)) items
           = map (\<lambda>it. (item_key it, AttrStr (bool_text (the (item_val it))))) items"
    using items by (auto simp: list_all_iff item_value_def)
  let ?kv = "map (\<lambda>it. (item_key it, AttrStr (bool_text (the (item_val it))))) items"
  have a': "attrs c = map_of (rev ?kv)" using a v by simp
  have dom: "dom (attrs c) = item_key ` set items"
    unfolding a' by (simp add: dom_map_of_conv_image_fst image_image)
  have each: "attrs c (item_key it) = Some (AttrStr (bool_text (the (item_val it))))"
    if "distinct (map item_key items)" and "it \<in> set items" for it
  proof -
    have "distinct (map fst (rev ?kv))" using that(1) by (simp add: rev_map [symmetric] comp_def)
    moreover have "(item_key it, AttrStr (bool_text (the (item_val it)))) \<in> set (rev ?kv)"
      using that(2) by auto
    ultimately show ?thesis unfolding a' by (rule map_of_is_SomeI)
  qed
  from dom a' each show ?thesis by blast
qed

theorem boolean_attributes_stored_witness:
  "\<exists>c. MatClass_new ''Foo'' ''lib''
          (tk_classdef # replicate (Suc 0) tk_blank @ tk_lparen
           # attr_list [Item ''Sealed'' (Some True) 0 (Suc 0) (Suc 0) 0,
                        Item ''Hidden'' (Some False) (Suc 0) 0 0 (Suc 0)]
           @ tk_rparen # [tk_blank, (Token_Name, ''Foo''), tk_newline, (Token_Keyword, ''end''),
                          tk_newline]) = Inr c
       \<and> dom (attrs c) = {''Sealed'', ''Hidden''}
       \<and> attrs c ''Sealed'' = Some (AttrStr ''true'')
       \<and> attrs c ''Hidden'' = Some (AttrStr ''false'')"
proof -
  let ?items = "[Item ''Sealed'' (Some True) 0 (Suc 0) (Suc 0) 0,
                 Item ''Hidden'' (Some False) (Suc 0) 0 0 (Suc 0)]"
  let ?tks = "tk_classdef # replicate (Suc 0) tk_blank @ tk_lparen # attr_list ?items
           @ tk_rparen # [tk_blank, (Token_Name, ''Foo''), tk_newline, (Token_Keyword, ''end''),
                          tk_newline]"
  have "\<exists>c. MatClass_new ''Foo'' ''lib'' ?tks = Inr c"
    by (simp add: render_item_def bool_text_def parser_eval)
  then obtain c where c: "MatClass_new ''Foo'' ''lib'' ?tks = Inr c" by blast
  have ok: "list_all (\<lambda>it. recognized (item_key it) \<and> item_val it \<noteq> None) ?items"
    by (auto simp: recognized_def cls_attr_types_def)
  from boolean_attributes_stored [OF ok c]
  have "dom (attrs c) = {''Sealed'', ''Hidden''}
       \<and> attrs c ''Sealed'' = Some (AttrStr ''true'')
       \<and> attrs c ''Hidden'' = Some (AttrStr ''false'')"
    by (auto simp: bool_text_def)
  with c show ?thesis by blast
qed




text \<open>
  Claim C5, as stated, fails: the claim is that \<open>bases\<close> is \<open>[A, B, C]\<close> for blank runs of
  any widths between the names and the ampersands. A base name is read up to the next
  whitespace token (line 373), so with no blank between a name and the ampersand after
  it the ampersand and the next name are read into the same base name.
\<close>

theorem superclass_chain_without_blanks:
  "map_sum id bases
     (MatClass_new ''Foo'' ''lib''
        [tk_classdef, tk_blank, (Token_Name, ''Foo''), tk_blank, tk_less, tk_blank,
         (Token_Name, ''A''), tk_amp, (Token_Name, ''B''), tk_amp, (Token_Name, ''C''),
         tk_newline, (Token_Keyword, ''end''), tk_newline])
   = Inr [''A&B&C'']"
  by (simp add: parser_eval)

text \<open>
  Claim C5, amended. Let the header (with or without a list of recognised attributes)
  be followed by \<open><\<close> and the names \<open>A\<close>, \<open>B\<close>, \<open>C\<close> (not empty), separated by ampersands
  and ended by a newline, with at least one blank between a name and the ampersand after
  it and blank runs of any widths elsewhere. If the constructor returns a class, its
  \<open>bases\<close> is \<open>[A, B, C]\<close>.
\<close>

theorem superclass_chain_bases:
  assumes ok: "header_recognized al"
    and names: "A \<noteq> []" "B \<noteq> []" "C \<noteq> []"
    and tks: "tks = class_header a al nm c @ tk_less
                # replicate w0 tk_blank @ (Token_Name, A) # replicate (Suc w1) tk_blank @ tk_amp
                # replicate w2 tk_blank @ (Token_Name, B) # replicate (Suc w3) tk_blank @ tk_amp
                # replicate w4 tk_blank @ (Token_Name, C) # replicate w5 tk_blank
                @ tk_newline # rest"
    and new: "MatClass_new nm pth tks = Inr cls"
  shows "bases cls = [A, B, C]"
proof -
  let ?h = "class_header a al nm c"
  define s where "s = \<lparr>name = nm, path = pth, tokens = tks, attrs = header_attrs al, bases = [],
                  docstring = [], properties = Map.empty, methods = Map.empty\<rparr>"
  define last_round where
    "last_round = replicate w4 tk_blank @ (Token_Name, C) # replicate w5 tk_blank @ tk_newline # rest"
  define round2 where
    "round2 = replicate w2 tk_blank @ (Token_Name, B) # replicate (Suc w3) tk_blank @ tk_amp # last_round"
  define round1 where
    "round1 = replicate w0 tk_blank @ (Token_Name, A) # replicate (Suc w1) tk_blank @ tk_amp # round2"
  have tks': "tks = ?h @ tk_less # round1"
    using tks by (simp add: round1_def round2_def last_round_def)
  have init: "MatClass_init nm pth tks =
           (case parse_bases s (length ?h) of
              (Inl e, s1) \<Rightarrow> (Inl e, s1)
            | (Inr idx3, s1) \<Rightarrow> parse_docstring s1 idx3)"
    using ok _ tks' s_def by (rule MatClass_init_header) simp
  let ?s1 = "s\<lparr>bases := bases s @ [A]\<rparr>"
  let ?s2 = "?s1\<lparr>bases := bases ?s1 @ [B]\<rparr>"
  let ?s3 = "?s2\<lparr>bases := bases ?s2 @ [C]\<rparr>"
  let ?i0 = "length ?h + 1"
  let ?i1 = "?i0 + w0 + w1 + 3"
  let ?i2 = "?i1 + w2 + w3 + 3"
  have d: "drop (length ?h) (tokens s) = tk_less # round1" by (simp add: s_def tks')
  have lt: "tk_eq s (length ?h) tk_less = Inr True"
    using tk_eq_ahead [OF d, of tk_less] by simp
  have d0: "drop ?i0 (tokens s) =
              replicate w0 tk_blank @ (Token_Name, A) # replicate (Suc w1) tk_blank @ tk_amp # round2"
    using drop_next [OF d] by (simp add: round1_def)
  have r1: "bases_loop s ?i0 = bases_loop ?s1 ?i1"
    using d0 names(1) by (rule bases_loop_amp)
  have d1: "drop ?i1 (tokens ?s1) =
              replicate w2 tk_blank @ (Token_Name, B) # replicate (Suc w3) tk_blank @ tk_amp # last_round"
  proof -
    let ?p = "replicate w0 tk_blank @ (Token_Name, A) # replicate (Suc w1) tk_blank @ [tk_amp]"
    have e: "?i0 + length ?p = ?i1" by simp
    have "drop ?i0 (tokens s) = ?p @ round2" using d0 by simp
    then have "drop (?i0 + length ?p) (tokens s) = round2" by (rule drop_shift)
    then have "drop ?i1 (tokens s) = round2" unfolding e .
    then show ?thesis unfolding round2_def by simp
  qed
  have r2: "bases_loop ?s1 ?i1 = bases_loop ?s2 ?i2"
    using d1 names(2) by (rule bases_loop_amp)
  have d2: "drop ?i2 (tokens ?s2) =
              replicate w4 tk_blank @ (Token_Name, C) # replicate w5 tk_blank @ tk_newline # rest"
  proof -
    let ?p = "replicate w2 tk_blank @ (Token_Name, B) # replicate (Suc w3) tk_blank @ [tk_amp]"
    have e: "?i1 + length ?p = ?i2" by simp
    have "drop ?i1 (tokens ?s1) = ?p @ last_round" using d1 by simp
    then have "drop (?i1 + length ?p) (tokens ?s1) = last_round" by (rule drop_shift)
    then have "drop ?i2 (tokens ?s1) = last_round" unfolding e .
    then show ?thesis unfolding last_round_def by simp
  qed
  obtain i where run: "MatClass_init nm pth tks = (Inr i, cls)"
    using new by (auto simp: MatClass_new_def split: prod.splits sum.splits)
  show ?thesis
  proof (cases "list_all is_whitespace rest")
    case True
    from d2 True have "bases_loop ?s2 ?i2 = (Inl IndexError, ?s2)"
      by (rule bases_loop_last_raises)
    with r1 r2 have "bases_loop s ?i0 = (Inl IndexError, ?s2)" by simp
    with lt have "parse_bases s (length ?h) = (Inl IndexError, ?s2)"
      by (simp add: parse_bases_def)
    with init run show ?thesis by simp
  next
    case False
    from first_not_whitespace [OF False] obtain ws t r where
      rest: "rest = ws @ t # r" and ws: "list_all is_whitespace ws" "\<not> is_whitespace t"
      by blast
    from d2 have d2': "drop ?i2 (tokens ?s2) =
        replicate w4 tk_blank @ (Token_Name, C) # replicate w5 tk_blank @ tk_newline # ws @ t # r"
      by (simp add: rest)
    have "bases_loop ?s2 ?i2 = (Inr (?i2 + w4 + 1 + w5), ?s3)"
      using d2' names(3) ws by (rule bases_loop_last)
    with r1 r2 have "bases_loop s ?i0 = (Inr (?i2 + w4 + 1 + w5), ?s3)" by simp
    with lt have pb: "parse_bases s (length ?h) = (Inr (?i2 + w4 + 1 + w5 + 1), ?s3)"
      by (simp add: parse_bases_def)
    from init run pb have "parse_docstring ?s3 (?i2 + w4 + 1 + w5 + 1) = (Inr i, cls)" by simp
    from parse_docstring_only_docstring [OF this] have "bases cls = bases ?s3"
      by (simp add: only_docstring_def)
    then show ?thesis by (simp add: s_def)
  qed
qed

theorem superclass_chain_bases_witness:
  "\<exists>cls. MatClass_new ''Foo'' ''lib''
          [tk_classdef, tk_blank, (Token_Name, ''Foo''), tk_blank, tk_less,
           (Token_Name, ''A''), tk_blank, tk_amp, tk_blank, tk_blank,
           (Token_Name, ''B''), tk_blank, tk_blank, tk_amp,
           (Token_Name, ''C''), tk_newline, (Token_Keyword, ''end''), tk_newline] = Inr cls
        \<and> bases cls = [''A'', ''B'', ''C'']"
proof -
  let ?tks = "[tk_classdef, tk_blank, (Token_Name, ''Foo''), tk_blank, tk_less,
           (Token_Name, ''A''), tk_blank, tk_amp, tk_blank, tk_blank,
           (Token_Name, ''B''), tk_blank, tk_blank, tk_amp,
           (Token_Name, ''C''), tk_newline, (Token_Keyword, ''end''), tk_newline]"
  have "\<exists>cls. MatClass_new ''Foo'' ''lib'' ?tks = Inr cls"
    by (simp add: parser_eval)
  then obtain cls where cls: "MatClass_new ''Foo'' ''lib'' ?tks = Inr cls" by blast
  have shape: "?tks = class_header (Suc 0) None ''Foo'' (Suc 0) @ tk_less
                # replicate 0 tk_blank @ (Token_Name, ''A'') # replicate (Suc 0) tk_blank @ tk_amp
                # replicate (Suc (Suc 0)) tk_blank @ (Token_Name, ''B'') # replicate (Suc (Suc 0)) tk_blank @ tk_amp
                # replicate 0 tk_blank @ (Token_Name, ''C'') # replicate 0 tk_blank
                @ tk_newline # [(Token_Keyword, ''end''), tk_newline]"
    by (simp add: class_header_def)
  have "bases cls = [''A'', ''B'', ''C'']"
    by (rule superclass_chain_bases [OF _ _ _ _ shape cls]) (simp_all add: header_recognized_def)
  with cls show ?thesis by blast
qed

text \<open>
  Claim C6. The claim is that the docstring is the text of the indented comment lines
  that follow the header, and that the docstring phase stops at the first line that is
  not indented. The code checks the indentation of the first line only (line 393):
  after a comment line it skips any indentation (lines 404 to 406) and goes on at every
  Comment token, so a comment line that is not indented, after two that are, is read
  into the docstring as well.
\<close>

theorem docstring_takes_unindented_comment:
  "map_sum id docstring
     (MatClass_new ''Foo'' ''lib''
        [tk_classdef, tk_blank, (Token_Name, ''Foo''), tk_newline,
         tk_blank, tk_blank, (Token_Comment, ''% a''), tk_newline,
         tk_blank, tk_blank, (Token_Comment, ''% b''), tk_newline,
         (Token_Comment, ''% c''), tk_newline,
         (Token_Keyword, ''end''), tk_newline])
   = Inr (''% a'' @ [CHR 0x0A] @ ''% b'' @ [CHR 0x0A] @ ''% c'' @ [CHR 0x0A])"
  by (simp add: parser_eval)

text \<open>
  Claim C8. The claim is that a token list starting with the keyword \<open>function\<close> gives a
  function object carrying the name. The code does not: the constructor of MatFunction
  passes MatClass to \<open>super\<close>, which raises TypeError for an object that is no MatClass, so
  the dispatch raises for the tokens of \<open>function foo(x)\<close> and for every other list that
  starts with the keyword.
\<close>

theorem parse_mfile_function_foo_raises:
  "parse_mfile
     [tk_function, tk_blank, (Token_Other ''Name.Function'', ''foo''), tk_lparen,
      (Token_Text, ''x''), tk_rparen, tk_newline, (Token_Keyword, ''end''), tk_newline]
     ''foo'' ''lib''
   = Inl (TypeError ''super(type, obj): obj must be an instance or subtype of type'')"
  by (simp add: parse_mfile_def MatFunction_new_def super_check_def)

text \<open>
  Claim C9. Whenever the constructor returns a class, no element of its \<open>bases\<close> is the
  empty string.
\<close>

theorem bases_never_empty_string:
  assumes "MatClass_new nm pth tks = Inr c"
  shows "[] \<notin> set (bases c)"
proof -
  from assms obtain i where "MatClass_init nm pth tks = (Inr i, c)"
    by (auto simp: MatClass_new_def split: prod.splits sum.splits)
  then show ?thesis by (rule MatClass_init_bases_nonempty)
qed

theorem bases_never_empty_string_witness:
  "\<exists>c. MatClass_new ''Foo'' ''lib'' tokens_sealed_foo = Inr c
       \<and> bases c = [''Bar'', ''Baz''] \<and> [] \<notin> set (bases c)"
  using bases_never_empty_string [OF sealed_foo_parses] sealed_foo_parses by simp

text \<open>
  Claim C10. The constructor never assigns to the token list: the object it leaves,
  whether it returns or raises, holds the list it was given, element for element, and
  so does the class it returns.
\<close>

theorem tokens_never_mutated:
  "tokens (snd (MatClass_init nm pth tks)) = tks
   \<and> (\<forall>c. MatClass_new nm pth tks = Inr c \<longrightarrow> tokens c = tks)"
proof -
  obtain r s where rs: "MatClass_init nm pth tks = (r, s)" by force
  from MatClass_init_fields [OF rs] rs
  have "tokens (snd (MatClass_init nm pth tks)) = tks" by simp
  moreover have "\<forall>c. MatClass_new nm pth tks = Inr c \<longrightarrow> tokens c = tks"
    using MatClass_new_fields by blast
  ultimately show ?thesis by simp
qed

theorem tokens_never_mutated_witness:
  "tokens (snd (MatClass_init ''Foo'' ''lib'' tokens_plain_foo)) = tokens_plain_foo
   \<and> (\<exists>c. MatClass_new ''Foo'' ''lib'' tokens_plain_foo = Inr c \<and> tokens c = tokens_plain_foo)
   \<and> fst (MatClass_init ''Foo'' ''lib'' [tk_classdef, tk_blank]) = Inl IndexError
   \<and> tokens (snd (MatClass_init ''Foo'' ''lib'' [tk_classdef, tk_blank])) = [tk_classdef, tk_blank]"
  using tokens_never_mutated [of "''Foo''" "''lib''" tokens_plain_foo]
    tokens_never_mutated [of "''Foo''" "''lib''" "[tk_classdef, tk_blank]"]
    plain_foo_parses
  by (simp add: parser_eval)

end
